theory Spec2Isabelle
  imports Complex_Main "HOL-Library.Word" "HOL-Library.Signed_Division"
begin

text \<open>
  A shallow embedding of the parts of \<^verbatim>\<open>src/scr.c\<close> (the Scalable Checkpoint / Restart
  library) that decide the properties below: descriptor selection, partner selection and the
  partner validity rule, the usable-file predicate, the chunk size of the XOR encoder, the
  detection step of the XOR rebuild, and the entry points \<^verbatim>\<open>SCR_Start_checkpoint\<close>,
  \<^verbatim>\<open>SCR_Route_file\<close> and \<^verbatim>\<open>SCR_Complete_checkpoint\<close>.

  Conventions. A C \<^verbatim>\<open>int\<close> is an \<open>int\<close> (the values met here are ranks, counts and
  checkpoint ids, far from the limits of the type); \<^verbatim>\<open>unsigned long\<close> and \<^verbatim>\<open>size_t\<close> are
  \<open>64 word\<close>, where arithmetic wraps; a pointer that may be \<^verbatim>\<open>NULL\<close> is an \<open>option\<close>;
  a flag tested with \<^verbatim>\<open>if (x)\<close> is compared with 0. The result of an MPI all-reduce is
  computed from the list of the values contributed by the members of the communicator, in
  rank order.
\<close>

section \<open>Return codes and outcomes\<close>

text \<open>
  \<^verbatim>\<open>SCR_SUCCESS\<close> and \<^verbatim>\<open>SCR_FAILURE\<close> are two distinct codes of \<^verbatim>\<open>scr.h\<close>; the code only
  compares them for equality.
\<close>

datatype scr_rc = SCR_SUCCESS | SCR_FAILURE

text \<open>
  A call either returns, or ends in \<^verbatim>\<open>scr_abort\<close> (which calls \<^verbatim>\<open>MPI_Abort\<close> and so kills
  the job: statements written after it are not reached) or in an error of an MPI call,
  which kills the job too (\<open>Abort\<close>), or is ended by the system because it reads through
  a \<^verbatim>\<open>NULL\<close> pointer or divides by zero (\<open>Fault\<close>). Where a call may also wait for
  ever, its outcome is an \<open>option\<close>, and \<open>None\<close> is the call that does not come back.
\<close>

datatype 'a outcome = Return 'a | Abort | Fault

section \<open>Checkpoint descriptors\<close>

text \<open>
  The redundancy scheme of a descriptor (\<^verbatim>\<open>SCR_COPY_NULL\<close>, \<^verbatim>\<open>SCR_COPY_LOCAL\<close>,
  \<^verbatim>\<open>SCR_COPY_PARTNER\<close>, \<^verbatim>\<open>SCR_COPY_XOR\<close>).
\<close>

datatype copy_type = SCR_COPY_NULL | SCR_COPY_LOCAL | SCR_COPY_PARTNER | SCR_COPY_XOR

text \<open>
  \<^verbatim>\<open>struct scr_ckptdesc\<close>. C integers are kept as \<open>int\<close>; a \<^verbatim>\<open>char*\<close> that may be
  \<^verbatim>\<open>NULL\<close> is a \<open>string option\<close>; the two hostname buffers are strings. The communicator
  handle is left out: what the functions below need from it is taken as an argument.
\<close>

record scr_ckptdesc =
  enabled :: int
  index :: int
  interval :: int
  base :: "string option"
  directory :: "string option"
  copy_type :: copy_type
  hop_distance :: int
  set_size :: int
  groups :: int
  group_id :: int
  ranks :: int
  my_rank :: int
  lhs_rank :: int
  lhs_rank_world :: int
  lhs_hostname :: string
  rhs_rank :: int
  rhs_rank_world :: int
  rhs_hostname :: string

text \<open>
  \<^verbatim>\<open>scr_ckptdesc_get\<close>: the loop over the descriptor array. The state of the loop is the
  pointer \<^verbatim>\<open>c\<close> (here the index of the array element, \<open>None\<close> for \<^verbatim>\<open>NULL\<close>) and the
  running \<^verbatim>\<open>interval\<close>. The C condition is evaluated left to right with short-circuit
  \<^verbatim>\<open>&&\<close>, so the remainder is only taken for an interval above the running one, which
  is never below 0; \<open>smod\<close> is C's truncating \<^verbatim>\<open>%\<close>.
\<close>

fun scr_ckptdesc_get_loop ::
  "int \<Rightarrow> scr_ckptdesc list \<Rightarrow> nat \<Rightarrow> nat option \<times> int \<Rightarrow> nat option \<times> int" where
  "scr_ckptdesc_get_loop checkpoint_id [] i (c, interval') = (c, interval')"
| "scr_ckptdesc_get_loop checkpoint_id (d # ds) i (c, interval') =
     (if enabled d \<noteq> 0 \<and> interval' < interval d \<and> checkpoint_id smod interval d = 0
      then scr_ckptdesc_get_loop checkpoint_id ds (Suc i) (Some i, interval d)
      else scr_ckptdesc_get_loop checkpoint_id ds (Suc i) (c, interval'))"

definition scr_ckptdesc_get :: "int \<Rightarrow> scr_ckptdesc list \<Rightarrow> nat option" where
  "scr_ckptdesc_get checkpoint_id ckpts = fst (scr_ckptdesc_get_loop checkpoint_id ckpts 0 (None, 0))"


text \<open>
  \<^verbatim>\<open>scr_ckptdesc_init\<close>: the values a descriptor starts from. The function leaves
  \<^verbatim>\<open>hop_distance\<close> and \<^verbatim>\<open>set_size\<close> untouched; they are 0 here. \<^verbatim>\<open>MPI_PROC_NULL\<close> is
  written \<open>- 1\<close>.
\<close>

definition scr_ckptdesc_init :: scr_ckptdesc where
  "scr_ckptdesc_init =
     \<lparr> enabled = 0, index = - 1, interval = - 1, base = None, directory = None,
       copy_type = SCR_COPY_NULL, hop_distance = 0, set_size = 0, groups = 0, group_id = - 1,
       ranks = 0, my_rank = - 1, lhs_rank = - 1, lhs_rank_world = - 1, lhs_hostname = [],
       rhs_rank = - 1, rhs_rank_world = - 1, rhs_hostname = [] \<rparr>"

text \<open>
  What the comment of \<^verbatim>\<open>scr_ckptdesc_get\<close> and the specification say of the selected
  descriptor, word for word: it is enabled and its interval divides the checkpoint id
  evenly (\<open>claimed_applies\<close>), no such descriptor has a larger interval, and none before it
  in the array has the same interval (\<open>claimed_selected\<close>).
\<close>

definition claimed_applies :: "int \<Rightarrow> scr_ckptdesc \<Rightarrow> bool" where
  "claimed_applies checkpoint_id d \<longleftrightarrow> enabled d \<noteq> 0 \<and> interval d dvd checkpoint_id"

definition claimed_selected :: "int \<Rightarrow> scr_ckptdesc list \<Rightarrow> nat \<Rightarrow> bool" where
  "claimed_selected checkpoint_id ds i \<longleftrightarrow>
     i < length ds \<and> claimed_applies checkpoint_id (ds ! i) \<and>
     (\<forall>j<length ds. claimed_applies checkpoint_id (ds ! j) \<longrightarrow> interval (ds ! j) \<le> interval (ds ! i)) \<and>
     (\<forall>j<i. claimed_applies checkpoint_id (ds ! j) \<longrightarrow> interval (ds ! j) < interval (ds ! i))"

text \<open>
  The same with the one condition the loop adds: the interval is positive (the running
  interval starts at 0 and only a strictly larger one replaces it).
\<close>

definition applies :: "int \<Rightarrow> scr_ckptdesc \<Rightarrow> bool" where
  "applies checkpoint_id d \<longleftrightarrow>
     enabled d \<noteq> 0 \<and> 0 < interval d \<and> interval d dvd checkpoint_id"

definition selected :: "int \<Rightarrow> scr_ckptdesc list \<Rightarrow> nat \<Rightarrow> bool" where
  "selected checkpoint_id ds i \<longleftrightarrow>
     i < length ds \<and> applies checkpoint_id (ds ! i) \<and>
     (\<forall>j<length ds. applies checkpoint_id (ds ! j) \<longrightarrow> interval (ds ! j) \<le> interval (ds ! i)) \<and>
     (\<forall>j<i. applies checkpoint_id (ds ! j) \<longrightarrow> interval (ds ! j) < interval (ds ! i))"

section \<open>Partner selection\<close>

text \<open>
  \<^verbatim>\<open>scr_set_partners\<close>, first the two loops that shift the hop distance
  (\<^verbatim>\<open>while (dist > ranks) dist -= ranks;\<close> and \<^verbatim>\<open>while (dist < 0) dist += ranks;\<close>).
  Nothing in the loops bounds the number of rounds, so they are partial functions: \<open>None\<close>
  is a loop that does not end.
\<close>

partial_function (option) scr_set_partners_shift_down :: "int \<Rightarrow> int \<Rightarrow> int option" where
  "scr_set_partners_shift_down d ranks' =
     (if d > ranks' then scr_set_partners_shift_down (d - ranks') ranks' else Some d)"

partial_function (option) scr_set_partners_shift_up :: "int \<Rightarrow> int \<Rightarrow> int option" where
  "scr_set_partners_shift_up d ranks' =
     (if d < 0 then scr_set_partners_shift_up (d + ranks') ranks' else Some d)"

declare scr_set_partners_shift_down.simps [code]

declare scr_set_partners_shift_up.simps [code]

text \<open>
  A communicator is the list of its members in rank order, each with its rank in
  \<^verbatim>\<open>scr_comm_world\<close> and its hostname (what the member sends in the four exchanges of
  \<^verbatim>\<open>scr_set_partners\<close>). All members call with the same distance, so the message a process
  receives from its left partner is the one that partner sent to its right, and likewise on
  the other side. \<^verbatim>\<open>MPI_Comm_rank\<close> gives a rank below the size, so \<open>my_rank\<close> is a \<open>nat\<close>.
  MPI has no communicator without members; for a size of 0 the C code would loop for ever
  or divide by zero, and the model gives no result.
\<close>

record partners =
  p_lhs_rank :: int
  p_lhs_rank_world :: int
  p_lhs_hostname :: string
  p_rhs_rank :: int
  p_rhs_rank_world :: int
  p_rhs_hostname :: string

definition scr_set_partners :: "(int \<times> string) list \<Rightarrow> nat \<Rightarrow> int \<Rightarrow> partners option" where
  "scr_set_partners comm my_rank' d =
     (let ranks' = int (length comm) in
      if ranks' = 0 then None else
      case scr_set_partners_shift_down d ranks' of
        None \<Rightarrow> None
      | Some d1 \<Rightarrow>
         (case scr_set_partners_shift_up d1 ranks' of
            None \<Rightarrow> None
          | Some d2 \<Rightarrow>
             (let lhs = (int my_rank' + ranks' - d2) smod ranks';
                  rhs = (int my_rank' + ranks' + d2) smod ranks'
              in Some \<lparr> p_lhs_rank = lhs,
                        p_lhs_rank_world = fst (comm ! nat lhs),
                        p_lhs_hostname = snd (comm ! nat lhs),
                        p_rhs_rank = rhs,
                        p_rhs_rank_world = fst (comm ! nat rhs),
                        p_rhs_hostname = snd (comm ! nat rhs) \<rparr>)))"

section \<open>Building a descriptor: copy type, communicator, partners, validity\<close>

text \<open>
  \<^verbatim>\<open>strcasecmp(a, b) == 0\<close>: equality of the two strings once ASCII lower-case letters are
  folded to upper case.
\<close>

definition toupper :: "char \<Rightarrow> char" where
  "toupper c =
     (case map_of (zip ''abcdefghijklmnopqrstuvwxyz'' ''ABCDEFGHIJKLMNOPQRSTUVWXYZ'') c of
        None \<Rightarrow> c
      | Some u \<Rightarrow> u)"

definition strcasecmp_eq :: "string \<Rightarrow> string \<Rightarrow> bool" where
  "strcasecmp_eq a b \<longleftrightarrow> map toupper a = map toupper b"

text \<open>
  \<^verbatim>\<open>scr_alltrue\<close>: \<^verbatim>\<open>MPI_LAND\<close> over \<^verbatim>\<open>scr_comm_world\<close> of the flags of all processes.
\<close>

definition scr_alltrue :: "int list \<Rightarrow> int" where
  "scr_alltrue flags = (if list_all (\<lambda>flag. flag \<noteq> 0) flags then 1 else 0)"

text \<open>
  \<^verbatim>\<open>MPI_Allreduce\<close> with \<^verbatim>\<open>MPI_MAX\<close> and \<^verbatim>\<open>MPI_SUM\<close> over a communicator: every member
  receives the maximum, or the sum, of the values of all members. A communicator has at
  least one member, so the maximum is never taken of the empty list.
\<close>

definition allreduce_max :: "'a::linorder list \<Rightarrow> 'a" where
  "allreduce_max xs = fold max (tl xs) (hd xs)"

definition allreduce_sum :: "int list \<Rightarrow> int" where
  "allreduce_sum xs = sum_list xs"

text \<open>\<^verbatim>\<open>sprintf(str, "%d", i)\<close>: the decimal digits of an integer.\<close>

fun sprintf_digits :: "nat \<Rightarrow> string" where
  "sprintf_digits n =
     (if n < 10 then [''0123456789'' ! n]
      else sprintf_digits (n div 10) @ [''0123456789'' ! (n mod 10)])"

declare sprintf_digits.simps [simp del]

definition sprintf_d :: "int \<Rightarrow> string" where
  "sprintf_d i = (if i < 0 then CHR ''-'' # sprintf_digits (nat (- i)) else sprintf_digits (nat i))"

text \<open>
  The hash a descriptor is built from: the first value of each key that
  \<^verbatim>\<open>scr_ckptdesc_create_from_hash\<close> looks up, \<open>None\<close> when the key is not there. The values
  the code passes through \<^verbatim>\<open>atoi\<close> are kept as the integers \<^verbatim>\<open>atoi\<close> gives.
\<close>

record scr_hash =
  SCR_CONFIG_KEY_ENABLED :: "int option"
  SCR_CONFIG_KEY_INDEX :: "int option"
  SCR_CONFIG_KEY_INTERVAL :: "int option"
  SCR_CONFIG_KEY_BASE :: "string option"
  SCR_CONFIG_KEY_DIRECTORY :: "string option"
  SCR_CONFIG_KEY_HOP_DISTANCE :: "int option"
  SCR_CONFIG_KEY_SET_SIZE :: "int option"
  SCR_CONFIG_KEY_TYPE :: "string option"
  SCR_CONFIG_KEY_GROUP_ID :: "int option"
  SCR_CONFIG_KEY_GROUP_RANK :: "int option"

text \<open>
  \<^verbatim>\<open>scr_hash_elem_get_first_val(hash, key)\<close>; for a \<^verbatim>\<open>NULL\<close> hash there is no value.
\<close>

definition scr_hash_elem_get_first_val :: "scr_hash option \<Rightarrow> (scr_hash \<Rightarrow> 'a option) \<Rightarrow> 'a option" where
  "scr_hash_elem_get_first_val hash key = (case hash of None \<Rightarrow> None | Some h \<Rightarrow> key h)"

text \<open>
  One process of the job, as \<^verbatim>\<open>scr_ckptdesc_create_from_hash\<close> sees it: the globals the
  function reads (\<open>proc_my_rank_local\<close> is \<^verbatim>\<open>scr_my_rank_local\<close>, from which \<^verbatim>\<open>SCR_Init\<close>
  builds \<^verbatim>\<open>scr_comm_level\<close>), and its two arguments: the descriptor \<^verbatim>\<open>c\<close> as it is before
  the call and the hash, each \<open>None\<close> for a \<^verbatim>\<open>NULL\<close> pointer. The job is the list of its
  processes in the order of their ranks in \<^verbatim>\<open>scr_comm_world\<close>, so \<^verbatim>\<open>scr_my_rank_world\<close> is
  the position in the list.
\<close>

record scr_proc =
  scr_my_hostname :: string
  proc_my_rank_local :: int
  scr_ranks_local :: int
  scr_ranks_world :: int
  scr_username :: string
  scr_jobid :: string
  scr_hop_distance :: int
  scr_set_size :: int
  proc_c :: "scr_ckptdesc option"
  proc_hash :: "scr_hash option"

text \<open>
  The first part of the function, after \<^verbatim>\<open>scr_ckptdesc_init\<close>: the fields set from the
  scalar keys of the hash or from their defaults.
\<close>

definition create_from_hash_scalars :: "scr_proc \<Rightarrow> int \<Rightarrow> scr_ckptdesc" where
  "create_from_hash_scalars p index' =
     (let hash = proc_hash p;
          c = scr_ckptdesc_init;
          c = c\<lparr>enabled := (case scr_hash_elem_get_first_val hash SCR_CONFIG_KEY_ENABLED of
                               Some v \<Rightarrow> v | None \<Rightarrow> 1)\<rparr>;
          c = c\<lparr>index := (case scr_hash_elem_get_first_val hash SCR_CONFIG_KEY_INDEX of
                             Some v \<Rightarrow> v | None \<Rightarrow> index')\<rparr>;
          c = c\<lparr>interval := (case scr_hash_elem_get_first_val hash SCR_CONFIG_KEY_INTERVAL of
                                Some v \<Rightarrow> v | None \<Rightarrow> 1)\<rparr>;
          c = (case scr_hash_elem_get_first_val hash SCR_CONFIG_KEY_BASE of
                 Some v \<Rightarrow> c\<lparr>base := Some v\<rparr> | None \<Rightarrow> c);
          c = (case scr_hash_elem_get_first_val hash SCR_CONFIG_KEY_DIRECTORY of
                 Some v \<Rightarrow> c\<lparr>directory := Some v\<rparr>
               | None \<Rightarrow>
                  (case base c of
                     Some b \<Rightarrow>
                       c\<lparr>directory := Some (b @ ''/'' @ scr_username p @ ''/scr.'' @ scr_jobid p @
                                             ''/index.'' @ sprintf_d (index c))\<rparr>
                   | None \<Rightarrow> c));
          c = c\<lparr>hop_distance := (case scr_hash_elem_get_first_val hash SCR_CONFIG_KEY_HOP_DISTANCE of
                                    Some v \<Rightarrow> v | None \<Rightarrow> scr_hop_distance p)\<rparr>;
          c = c\<lparr>set_size := (case scr_hash_elem_get_first_val hash SCR_CONFIG_KEY_SET_SIZE of
                                Some v \<Rightarrow> v | None \<Rightarrow> scr_set_size p)\<rparr>
      in c)"

text \<open>
  Under \<^verbatim>\<open>if (value != NULL)\<close> for the \<^verbatim>\<open>TYPE\<close> key: the copy type, and the change to
  \<^verbatim>\<open>LOCAL\<close> when all processes run on one node.
\<close>

definition create_from_hash_type :: "string \<Rightarrow> scr_proc \<Rightarrow> scr_ckptdesc \<Rightarrow> scr_ckptdesc" where
  "create_from_hash_type value p c =
     (let c = (if strcasecmp_eq value ''LOCAL'' then c\<lparr>copy_type := SCR_COPY_LOCAL\<rparr>
               else if strcasecmp_eq value ''PARTNER'' then c\<lparr>copy_type := SCR_COPY_PARTNER\<rparr>
               else if strcasecmp_eq value ''XOR'' then c\<lparr>copy_type := SCR_COPY_XOR\<rparr>
               else c\<lparr>enabled := 0\<rparr>)
      in if scr_ranks_local p = scr_ranks_world p then c\<lparr>copy_type := SCR_COPY_LOCAL\<rparr> else c)"

text \<open>
  A communicator is the list of its members in rank order, each named by its rank in
  \<^verbatim>\<open>scr_comm_world\<close>. \<^verbatim>\<open>MPI_Comm_split\<close> is a collective call of the MPI library: every
  member \<open>j\<close> of the communicator passes a colour and a key, and a member gets the new
  communicator of the members of its colour, ordered by key and, for equal keys, by their
  rank in the old one. \<^verbatim>\<open>MPI_Comm_rank\<close> is the position of the caller.
\<close>

definition MPI_Comm_split :: "nat list \<Rightarrow> (nat \<Rightarrow> int) \<Rightarrow> (nat \<Rightarrow> int) \<Rightarrow> nat \<Rightarrow> nat list" where
  "MPI_Comm_split members color key i = sort_key key (filter (\<lambda>j. color j = color i) members)"

definition MPI_Comm_rank :: "nat list \<Rightarrow> nat \<Rightarrow> nat" where
  "MPI_Comm_rank members i = length (takeWhile (\<lambda>j. j \<noteq> i) members)"

text \<open>
  \<^verbatim>\<open>scr_comm_level\<close> and \<^verbatim>\<open>scr_my_rank_level\<close> of the process of world rank \<open>i\<close>, as
  \<^verbatim>\<open>SCR_Init\<close> sets them:
  \<^verbatim>\<open>MPI_Comm_split(scr_comm_world, scr_my_rank_local, scr_my_rank_world, &scr_comm_level)\<close>.
\<close>

definition scr_comm_level :: "scr_proc list \<Rightarrow> nat \<Rightarrow> nat list" where
  "scr_comm_level world i =
     MPI_Comm_split [0..<length world] (\<lambda>j. proc_my_rank_local (world ! j)) int i"

definition scr_my_rank_level :: "scr_proc list \<Rightarrow> nat \<Rightarrow> int" where
  "scr_my_rank_level world i = int (MPI_Comm_rank (scr_comm_level world i) i)"

text \<open>
  The call by which a process builds \<^verbatim>\<open>c->comm\<close>: \<^verbatim>\<open>MPI_Comm_split\<close> of
  \<^verbatim>\<open>scr_comm_world\<close> with the group id and group rank of the hash when both keys are there;
  otherwise, by copy type, \<^verbatim>\<open>MPI_Comm_dup\<close> of \<^verbatim>\<open>MPI_COMM_SELF\<close> or of \<^verbatim>\<open>scr_comm_level\<close>, or
  \<^verbatim>\<open>MPI_Comm_split\<close> of \<^verbatim>\<open>scr_comm_level\<close>. The \<^verbatim>\<open>switch\<close> has no case for \<^verbatim>\<open>SCR_COPY_NULL\<close>
  (an unknown \<^verbatim>\<open>TYPE\<close>): then no call is made and \<^verbatim>\<open>c->comm\<close> stays \<^verbatim>\<open>MPI_COMM_NULL\<close>
  (\<open>Comm_null\<close>). \<open>Comm_absent\<close> stands for a process whose hash has no \<^verbatim>\<open>TYPE\<close> key, which
  skips all of this. For \<^verbatim>\<open>XOR\<close> the colour is computed with two divisions and a remainder
  (\<open>sdiv\<close> and \<open>smod\<close> truncate as C does); a divisor of 0 ends the process.
\<close>

datatype comm_call =
  Comm_split_world int int | Comm_dup_self | Comm_dup_level | Comm_split_level int int |
  Comm_null | Comm_absent

definition create_from_hash_comm_call ::
  "scr_hash option \<Rightarrow> int \<Rightarrow> int \<Rightarrow> scr_ckptdesc \<Rightarrow> comm_call outcome" where
  "create_from_hash_comm_call hash my_rank_level my_rank_world c =
     (case (scr_hash_elem_get_first_val hash SCR_CONFIG_KEY_GROUP_ID,
            scr_hash_elem_get_first_val hash SCR_CONFIG_KEY_GROUP_RANK) of
        (Some group_id', Some group_rank) \<Rightarrow> Return (Comm_split_world group_id' group_rank)
      | _ \<Rightarrow>
         (case copy_type c of
            SCR_COPY_LOCAL \<Rightarrow> Return Comm_dup_self
          | SCR_COPY_PARTNER \<Rightarrow> Return Comm_dup_level
          | SCR_COPY_XOR \<Rightarrow>
             if hop_distance c = 0 then Fault
             else
               (let rel_rank = my_rank_level sdiv hop_distance c;
                    mod_rank = my_rank_level smod hop_distance c
                in if set_size c = 0 then Fault
                   else Return (Comm_split_level
                                  ((rel_rank sdiv set_size c) * hop_distance c + mod_rank)
                                  my_rank_world))
          | SCR_COPY_NULL \<Rightarrow> Return Comm_null))"

definition comm_color :: "comm_call \<Rightarrow> int" where
  "comm_color call =
     (case call of Comm_split_world color key \<Rightarrow> color | Comm_split_level color key \<Rightarrow> color
      | _ \<Rightarrow> 0)"

definition comm_key :: "comm_call \<Rightarrow> int" where
  "comm_key call =
     (case call of Comm_split_world color key \<Rightarrow> key | Comm_split_level color key \<Rightarrow> key
      | _ \<Rightarrow> 0)"

definition is_split_world :: "comm_call \<Rightarrow> bool" where
  "is_split_world call = (case call of Comm_split_world color key \<Rightarrow> True | _ \<Rightarrow> False)"

definition is_split_level :: "comm_call \<Rightarrow> bool" where
  "is_split_level call = (case call of Comm_split_level color key \<Rightarrow> True | _ \<Rightarrow> False)"

text \<open>
  The communicator a process gets, \<open>calls\<close> being the calls of all processes in the order
  of their world ranks. A collective call comes back only if every member of the old
  communicator makes it: where one does not, the call has no result (\<open>None\<close>). A negative
  colour is an error of \<^verbatim>\<open>MPI_Comm_split\<close>, or it is \<^verbatim>\<open>MPI_UNDEFINED\<close> and gives
  \<^verbatim>\<open>MPI_COMM_NULL\<close>; and with \<^verbatim>\<open>MPI_COMM_NULL\<close> the call \<^verbatim>\<open>MPI_Comm_rank(c->comm, ...)\<close>
  that follows is an error. An error of an MPI call ends the job (the error handler of the
  communicators is the default one), which is \<open>Abort\<close>.
\<close>

definition create_from_hash_comm ::
  "scr_proc list \<Rightarrow> comm_call list \<Rightarrow> nat \<Rightarrow> nat list outcome option" where
  "create_from_hash_comm world calls i =
     (case calls ! i of
        Comm_split_world color key \<Rightarrow>
          if color < 0 then Some Abort
          else if list_all (\<lambda>j. is_split_world (calls ! j)) [0..<length world]
          then Some (Return (MPI_Comm_split [0..<length world]
                               (\<lambda>j. comm_color (calls ! j)) (\<lambda>j. comm_key (calls ! j)) i))
          else None
      | Comm_dup_self \<Rightarrow> Some (Return [i])
      | Comm_dup_level \<Rightarrow>
          if list_all (\<lambda>j. calls ! j = Comm_dup_level) (scr_comm_level world i)
          then Some (Return (scr_comm_level world i))
          else None
      | Comm_split_level color key \<Rightarrow>
          if color < 0 then Some Abort
          else if list_all (\<lambda>j. is_split_level (calls ! j)) (scr_comm_level world i)
          then Some (Return (MPI_Comm_split (scr_comm_level world i)
                               (\<lambda>j. comm_color (calls ! j)) (\<lambda>j. comm_key (calls ! j)) i))
          else None
      | Comm_null \<Rightarrow> Some Abort
      | Comm_absent \<Rightarrow> Some (Return []))"

text \<open>
  The position of the process in its communicator, the size of the communicator, and the
  group id: the world rank of the member of rank 0
  (\<^verbatim>\<open>MPI_Group_translate_ranks\<close>).
\<close>

definition create_from_hash_position :: "nat list \<Rightarrow> nat \<Rightarrow> scr_ckptdesc \<Rightarrow> scr_ckptdesc" where
  "create_from_hash_position members i c =
     c\<lparr>my_rank := int (MPI_Comm_rank members i), ranks := int (length members),
       group_id := int (members ! 0)\<rparr>"

definition store_partners :: "partners \<Rightarrow> scr_ckptdesc \<Rightarrow> scr_ckptdesc" where
  "store_partners r c =
     c\<lparr>lhs_rank := p_lhs_rank r, lhs_rank_world := p_lhs_rank_world r,
       lhs_hostname := p_lhs_hostname r, rhs_rank := p_rhs_rank r,
       rhs_rank_world := p_rhs_rank_world r, rhs_hostname := p_rhs_hostname r\<rparr>"

text \<open>
  The distance with which a process calls \<^verbatim>\<open>scr_set_partners\<close>, if it calls it: the hop
  distance for \<^verbatim>\<open>PARTNER\<close>, 1 for \<^verbatim>\<open>XOR\<close>.
\<close>

definition partner_dist :: "scr_ckptdesc \<Rightarrow> int option" where
  "partner_dist c =
     (if copy_type c = SCR_COPY_PARTNER then Some (hop_distance c)
      else if copy_type c = SCR_COPY_XOR then Some 1
      else None)"

text \<open>
  The partners of the process of world rank \<open>i\<close>, \<open>cs\<close> being the descriptors of all
  processes and \<open>members\<close> its communicator. The four exchanges of \<^verbatim>\<open>scr_set_partners\<close>
  pair up when every member of the communicator calls it with the same distance; where
  one does not, the model gives no result.
\<close>

definition create_from_hash_partners ::
  "scr_proc list \<Rightarrow> scr_ckptdesc list \<Rightarrow> nat list \<Rightarrow> nat \<Rightarrow> scr_ckptdesc option" where
  "create_from_hash_partners world cs members i =
     (case partner_dist (cs ! i) of
        None \<Rightarrow> Some (cs ! i)
      | Some d \<Rightarrow>
         if list_all (\<lambda>j. partner_dist (cs ! j) = Some d) members
         then map_option (\<lambda>r. store_partners r (cs ! i))
                (scr_set_partners (map (\<lambda>j. (int j, scr_my_hostname (world ! j))) members)
                   (MPI_Comm_rank members i) d)
         else None)"

text \<open>
  The check of the partners, on one process.
\<close>

definition create_from_hash_check :: "scr_proc \<Rightarrow> scr_ckptdesc \<Rightarrow> scr_ckptdesc" where
  "create_from_hash_check p c =
     (if copy_type c = SCR_COPY_PARTNER \<or> copy_type c = SCR_COPY_XOR then
        (if lhs_hostname c = [] \<or> rhs_hostname c = [] \<or>
            lhs_hostname c = scr_my_hostname p \<or> rhs_hostname c = scr_my_hostname p
         then c\<lparr>enabled := 0\<rparr> else c)
      else c)"

text \<open>
  The end of the function on all processes: the check of the partners, then
  \<^verbatim>\<open>if (!scr_alltrue(c->enabled)) c->enabled = 0;\<close>.
\<close>

definition create_from_hash_finish :: "scr_proc list \<Rightarrow> scr_ckptdesc list \<Rightarrow> scr_ckptdesc list" where
  "create_from_hash_finish world cs =
     (let cs = map (\<lambda>(p, c). create_from_hash_check p c) (zip world cs)
      in map (\<lambda>c. if scr_alltrue (map enabled cs) = 0 then c\<lparr>enabled := 0\<rparr> else c) cs)"

text \<open>
  From the \<^verbatim>\<open>TYPE\<close> key to the partners, on all processes: \<open>cs\<close> are the descriptors after
  the scalar keys. A process that divides by zero ends the job (\<open>Fault\<close>), and so does an
  error of MPI (\<open>Abort\<close>); both come before the process could wait in a collective call. If
  no process ends the job but the hash of some process has a \<^verbatim>\<open>TYPE\<close> key and that of
  another has none, the first waits in a collective call the second never makes. The
  count of groups is the all-reduce (a sum) of 1 from each process of rank 0 in its
  communicator.
\<close>

definition create_from_hash_topology ::
  "scr_proc list \<Rightarrow> scr_ckptdesc list \<Rightarrow> scr_ckptdesc list outcome option" where
  "create_from_hash_topology world cs =
     (let n = length world;
          type_value = (\<lambda>i. scr_hash_elem_get_first_val (proc_hash (world ! i)) SCR_CONFIG_KEY_TYPE);
          cs = map (\<lambda>i. case type_value i of
                           None \<Rightarrow> cs ! i
                         | Some value \<Rightarrow> create_from_hash_type value (world ! i) (cs ! i)) [0..<n];
          calls = map (\<lambda>i. case type_value i of
                              None \<Rightarrow> Return Comm_absent
                            | Some value \<Rightarrow>
                               create_from_hash_comm_call (proc_hash (world ! i))
                                 (scr_my_rank_level world i) (int i) (cs ! i)) [0..<n]
      in if list_ex (\<lambda>call. call = Fault) calls then Some Fault
         else
           (let calls = map (\<lambda>call. case call of Return r \<Rightarrow> r | _ \<Rightarrow> Comm_null) calls;
                comms = map (create_from_hash_comm world calls) [0..<n]
            in if list_ex (\<lambda>r. r = Some Abort) comms then Some Abort
               else if list_ex (\<lambda>i. type_value i = None) [0..<n] then None
               else
                 (case those comms of
                    None \<Rightarrow> None
                  | Some comms \<Rightarrow>
                     (let members = (\<lambda>i. case comms ! i of Return m \<Rightarrow> m | _ \<Rightarrow> []);
                          cs = map (\<lambda>i. create_from_hash_position (members i) i (cs ! i)) [0..<n];
                          groups' = allreduce_sum (map (\<lambda>c. if my_rank c = 0 then 1 else 0) cs);
                          cs = map (\<lambda>c. c\<lparr>groups := groups'\<rparr>) cs
                      in map_option Return
                           (those (map (\<lambda>i. create_from_hash_partners world cs (members i) i)
                                     [0..<n]))))))"

text \<open>
  \<^verbatim>\<open>scr_ckptdesc_create_from_hash\<close> on all processes of the job at once (the call is
  collective), with the argument \<^verbatim>\<open>index\<close>. Each process gets its return code and its
  descriptor. If some process has no descriptor or no hash, every process clears
  \<^verbatim>\<open>enabled\<close> in the descriptor it has and returns \<^verbatim>\<open>SCR_FAILURE\<close>. If no hash has a
  \<^verbatim>\<open>TYPE\<close> key, the descriptors are those of the scalar keys. \<open>None\<close> is a call that
  does not come back.
\<close>

definition scr_ckptdesc_create_from_hash ::
  "int \<Rightarrow> scr_proc list \<Rightarrow> (scr_rc \<times> scr_ckptdesc option) list outcome option" where
  "scr_ckptdesc_create_from_hash index' world =
     (let rc = (\<lambda>p. if proc_c p = None \<or> proc_hash p = None then SCR_FAILURE else SCR_SUCCESS)
      in if scr_alltrue (map (\<lambda>p. if rc p = SCR_SUCCESS then 1 else 0) world) = 0
         then Some (Return (map (\<lambda>p. (SCR_FAILURE, map_option (\<lambda>c. c\<lparr>enabled := 0\<rparr>) (proc_c p)))
                              world))
         else
           (let cs = map (\<lambda>p. create_from_hash_scalars p index') world
            in if list_all (\<lambda>p. scr_hash_elem_get_first_val (proc_hash p) SCR_CONFIG_KEY_TYPE = None)
                    world
               then Some (Return (map (\<lambda>c. (SCR_SUCCESS, Some c)) cs))
               else
                 (case create_from_hash_topology world cs of
                    None \<Rightarrow> None
                  | Some Abort \<Rightarrow> Some Abort
                  | Some Fault \<Rightarrow> Some Fault
                  | Some (Return cs) \<Rightarrow>
                     Some (Return (map (\<lambda>c. (SCR_SUCCESS, Some c))
                                     (create_from_hash_finish world cs))))))"

text \<open>
  The validity rule for the partners of a process: both hostnames are there and neither is
  the hostname of the process itself.
\<close>

definition valid_partners :: "scr_proc \<Rightarrow> scr_ckptdesc \<Rightarrow> bool" where
  "valid_partners p c \<longleftrightarrow>
     lhs_hostname c \<noteq> [] \<and> rhs_hostname c \<noteq> [] \<and>
     lhs_hostname c \<noteq> scr_my_hostname p \<and> rhs_hostname c \<noteq> scr_my_hostname p"

section \<open>The usable-file predicate\<close>

text \<open>
  Modelled from the spec: the per-file metadata sidecar and its accessors (\<^verbatim>\<open>scr_meta.c\<close> is
  not part of the sources at hand). The sidecar stores
  \<^verbatim>\<open>{ filename, filetype, filesize, checkpoint_id, rank, ranks_total, complete, crc32? }\<close>;
  it is read from a hash file, so each field may be missing, and an accessor
  \<^verbatim>\<open>scr_meta_get_...\<close> returns \<^verbatim>\<open>SCR_SUCCESS\<close> exactly when its field is there.
\<close>

record scr_meta =
  meta_filename :: "string option"
  meta_filetype :: "string option"
  meta_filesize :: "64 word option"
  meta_checkpoint_id :: "int option"
  meta_rank :: "int option"
  meta_ranks :: "int option"
  meta_complete :: "int option"
  meta_crc32 :: "64 word option"

definition scr_meta_is_complete :: "scr_meta \<Rightarrow> scr_rc" where
  "scr_meta_is_complete meta = (if meta_complete meta = Some 1 then SCR_SUCCESS else SCR_FAILURE)"

text \<open>
  What \<^verbatim>\<open>scr_bool_have_file\<close> asks of the file system: \<^verbatim>\<open>access(file, R_OK)\<close>,
  \<^verbatim>\<open>scr_meta_read\<close> (\<open>None\<close> when it fails) and \<^verbatim>\<open>scr_filesize\<close>.
\<close>

record scr_fs =
  fs_readable :: "string \<Rightarrow> bool"
  fs_meta :: "string \<Rightarrow> scr_meta option"
  fs_filesize :: "string \<Rightarrow> 64 word"

text \<open>
  \<^verbatim>\<open>scr_bool_have_file\<close>, check by check in the order of the source. The \<^verbatim>\<open>map\<close> argument
  is not used by the function and is left out.
\<close>

definition scr_bool_have_file :: "scr_fs \<Rightarrow> int \<Rightarrow> int \<Rightarrow> string option \<Rightarrow> int \<Rightarrow> int" where
  "scr_bool_have_file fs ckpt rank file ranks' =
     (case file of
        None \<Rightarrow> 0
      | Some f \<Rightarrow>
         if f = [] then 0
         else if \<not> fs_readable fs f then 0
         else (case fs_meta fs f of
            None \<Rightarrow> 0
          | Some meta \<Rightarrow>
             if scr_meta_is_complete meta \<noteq> SCR_SUCCESS then 0
             else (case meta_checkpoint_id meta of
                None \<Rightarrow> 0
              | Some meta_ckpt \<Rightarrow>
                 if ckpt \<noteq> meta_ckpt then 0
                 else (case meta_rank meta of
                    None \<Rightarrow> 0
                  | Some meta_rank' \<Rightarrow>
                     if rank \<noteq> meta_rank' then 0
                     else (case meta_ranks meta of
                        None \<Rightarrow> 0
                      | Some meta_ranks' \<Rightarrow>
                         if ranks' \<noteq> meta_ranks' then 0
                         else (case meta_filesize meta of
                            None \<Rightarrow> 0
                          | Some meta_size \<Rightarrow>
                             if fs_filesize fs f \<noteq> meta_size then 0 else 1))))))"

text \<open>
  The specification's sentence on a file that is present and usable, word for word: the
  sidecar is present, its \<^verbatim>\<open>complete\<close> flag is true, all six scalar fields match what the
  runtime expects, and the measured size matches \<^verbatim>\<open>filesize\<close>. The expected file name and
  file type are arguments.
\<close>

definition spec_present_and_usable ::
  "scr_fs \<Rightarrow> int \<Rightarrow> int \<Rightarrow> string \<Rightarrow> int \<Rightarrow> string \<Rightarrow> string \<Rightarrow> bool" where
  "spec_present_and_usable fs ckpt rank f ranks' expected_name expected_type \<longleftrightarrow>
     (case fs_meta fs f of
        None \<Rightarrow> False
      | Some meta \<Rightarrow>
          meta_complete meta = Some 1 \<and>
          meta_filename meta = Some expected_name \<and>
          meta_filetype meta = Some expected_type \<and>
          meta_filesize meta = Some (fs_filesize fs f) \<and>
          meta_checkpoint_id meta = Some ckpt \<and>
          meta_rank meta = Some rank \<and>
          meta_ranks meta = Some ranks')"

text \<open>What the function does check.\<close>

definition checked_usable :: "scr_fs \<Rightarrow> int \<Rightarrow> int \<Rightarrow> string \<Rightarrow> int \<Rightarrow> bool" where
  "checked_usable fs ckpt rank f ranks' \<longleftrightarrow>
     f \<noteq> [] \<and> fs_readable fs f \<and>
     (case fs_meta fs f of
        None \<Rightarrow> False
      | Some meta \<Rightarrow>
          meta_complete meta = Some 1 \<and>
          meta_filesize meta = Some (fs_filesize fs f) \<and>
          meta_checkpoint_id meta = Some ckpt \<and>
          meta_rank meta = Some rank \<and>
          meta_ranks meta = Some ranks')"

section \<open>The chunk size of the XOR encoder\<close>

text \<open>
  The chunk size of \<^verbatim>\<open>scr_copy_xor\<close>, from the all-reduce of \<^verbatim>\<open>my_bytes\<close> to the value
  stored in the header. \<open>my_bytes\<close> lists the byte totals of the members of \<^verbatim>\<open>c->comm\<close>.
  \<^verbatim>\<open>(unsigned long) (c->ranks - 1)\<close> is \<open>word_of_int\<close>; the product
  \<^verbatim>\<open>(c->ranks - 1) * chunk_size\<close> is taken in \<^verbatim>\<open>size_t\<close>. With \<^verbatim>\<open>c->ranks = 1\<close> the division
  is a division by zero (the source leaves a TODO there): \<open>None\<close>.
\<close>

definition scr_copy_xor_chunk_size :: "scr_ckptdesc \<Rightarrow> 64 word list \<Rightarrow> 64 word option" where
  "scr_copy_xor_chunk_size c my_bytes =
     (let max_bytes = allreduce_max my_bytes;
          divisor = (word_of_int (ranks c - 1) :: 64 word)
      in if divisor = 0 then None
         else
           (let chunk_size = max_bytes div divisor;
                chunk_size = (if divisor * chunk_size < max_bytes then chunk_size + 1 else chunk_size);
                chunk_size = (if chunk_size = 0 then chunk_size + 1 else chunk_size)
            in Some chunk_size))"

section \<open>Detection in the XOR rebuild\<close>

text \<open>
  One process as \<^verbatim>\<open>scr_attempt_rebuild_xor\<close> sees it: the results of
  \<^verbatim>\<open>scr_bool_have_files\<close> and \<^verbatim>\<open>scr_bool_have_xor_file\<close>, and the code \<^verbatim>\<open>scr_rebuild_xor\<close>
  returns on it for a given root. The job is the list of its XOR sets, each the list of its
  members in the order of \<^verbatim>\<open>c->my_rank\<close>.
\<close>

record xor_member =
  have_files :: int
  have_xor_file :: int
  rebuild_xor_rc :: "int \<Rightarrow> scr_rc"

definition have_my_files :: "xor_member \<Rightarrow> int" where
  "have_my_files m = (if have_xor_file m = 0 then 0 else have_files m)"

definition need_rebuild :: "xor_member \<Rightarrow> int" where
  "need_rebuild m = (if have_my_files m \<noteq> 0 then 0 else 1)"

definition total_rebuild :: "xor_member list \<Rightarrow> int" where
  "total_rebuild set' = allreduce_sum (map need_rebuild set')"

definition set_can_rebuild :: "xor_member list \<Rightarrow> int" where
  "set_can_rebuild set' = (if total_rebuild set' \<le> 1 then 1 else 0)"

definition tmp_rank :: "xor_member list \<Rightarrow> nat \<Rightarrow> int" where
  "tmp_rank set' r = (if need_rebuild (set' ! r) \<noteq> 0 then int r else - 1)"

definition rebuild_rank :: "xor_member list \<Rightarrow> int" where
  "rebuild_rank set' = allreduce_max (map (tmp_rank set') [0..<length set'])"

text \<open>
  The middle of the function for the member of rank \<open>r\<close> of a set, once the first
  \<^verbatim>\<open>scr_alltrue\<close> has passed: the root handed to \<^verbatim>\<open>scr_rebuild_xor\<close>, if it is called,
  and \<^verbatim>\<open>rc\<close>.
\<close>

definition rebuild_if_needed :: "xor_member list \<Rightarrow> nat \<Rightarrow> int option \<times> scr_rc" where
  "rebuild_if_needed set' r =
     (if total_rebuild set' > 0
      then (Some (rebuild_rank set'), rebuild_xor_rc (set' ! r) (rebuild_rank set'))
      else (None, SCR_SUCCESS))"

text \<open>
  \<^verbatim>\<open>scr_attempt_rebuild_xor\<close> on the member of rank \<open>r\<close> of set \<open>g\<close>: the root of the call
  to \<^verbatim>\<open>scr_rebuild_xor\<close> (\<open>None\<close> when it is not called) and the return code. The two
  \<^verbatim>\<open>scr_alltrue\<close> take the flags of all processes of all sets.
\<close>

definition scr_attempt_rebuild_xor :: "xor_member list list \<Rightarrow> nat \<Rightarrow> nat \<Rightarrow> int option \<times> scr_rc" where
  "scr_attempt_rebuild_xor world g r =
     (if scr_alltrue (concat (map (\<lambda>set'. map (\<lambda>m. set_can_rebuild set') set') world)) = 0
      then (None, SCR_FAILURE)
      else
        (let (root, rc) = rebuild_if_needed (world ! g) r in
         if scr_alltrue (concat (map (\<lambda>set'.
                map (\<lambda>r'. if snd (rebuild_if_needed set' r') = SCR_SUCCESS then 1 else 0)
                  [0..<length set']) world)) = 0
         then (root, SCR_FAILURE)
         else (root, SCR_SUCCESS)))"

text \<open>
  The member of rank \<open>k\<close> is the only one of its set that needs a rebuild.
\<close>

definition only_rebuilder :: "xor_member list \<Rightarrow> nat \<Rightarrow> bool" where
  "only_rebuilder set' k \<longleftrightarrow>
     k < length set' \<and> need_rebuild (set' ! k) \<noteq> 0 \<and>
     (\<forall>j<length set'. j \<noteq> k \<longrightarrow> need_rebuild (set' ! j) = 0)"

section \<open>The filemap\<close>

text \<open>
  Modelled from the spec: the filemap and its operations (\<^verbatim>\<open>scr_filemap.c\<close> is not part of
  the sources at hand). The filemap maps a checkpoint id and a rank to a set of files and a
  descriptor hash; a file appears at most once per checkpoint and rank. It is a list of
  entries keyed by (checkpoint id, rank). The descriptor hash is kept as the descriptor
  that \<^verbatim>\<open>scr_ckptdesc_store_to_hash\<close> wrote: its \<^verbatim>\<open>BASE\<close> key is set exactly when the
  \<^verbatim>\<open>base\<close> of the descriptor is not \<^verbatim>\<open>NULL\<close>. \<^verbatim>\<open>scr_filemap_list_checkpoints\<close> gives the
  ids in ascending order, each once.
\<close>

record fm_entry =
  fm_files :: "string list"
  fm_desc :: "scr_ckptdesc option"

type_synonym scr_filemap = "((int \<times> int) \<times> fm_entry) list"

definition scr_filemap_list_checkpoints :: "scr_filemap \<Rightarrow> int list" where
  "scr_filemap_list_checkpoints m = sort (remdups (map (\<lambda>kv. fst (fst kv)) m))"

definition scr_filemap_get_desc :: "scr_filemap \<Rightarrow> int \<Rightarrow> int \<Rightarrow> scr_ckptdesc option" where
  "scr_filemap_get_desc m ckpt rank =
     (case map_of m (ckpt, rank) of None \<Rightarrow> None | Some e \<Rightarrow> fm_desc e)"

definition scr_filemap_files :: "scr_filemap \<Rightarrow> int \<Rightarrow> int \<Rightarrow> string list" where
  "scr_filemap_files m ckpt rank =
     (case map_of m (ckpt, rank) of None \<Rightarrow> [] | Some e \<Rightarrow> fm_files e)"

definition scr_filemap_entry :: "scr_filemap \<Rightarrow> int \<Rightarrow> int \<Rightarrow> fm_entry" where
  "scr_filemap_entry m ckpt rank =
     (case map_of m (ckpt, rank) of None \<Rightarrow> \<lparr>fm_files = [], fm_desc = None\<rparr> | Some e \<Rightarrow> e)"

definition scr_filemap_put :: "scr_filemap \<Rightarrow> int \<Rightarrow> int \<Rightarrow> fm_entry \<Rightarrow> scr_filemap" where
  "scr_filemap_put m ckpt rank e =
     (if map_of m (ckpt, rank) = None then m @ [((ckpt, rank), e)]
      else map (\<lambda>kv. if fst kv = (ckpt, rank) then (fst kv, e) else kv) m)"

definition scr_filemap_add_file :: "scr_filemap \<Rightarrow> int \<Rightarrow> int \<Rightarrow> string \<Rightarrow> scr_filemap" where
  "scr_filemap_add_file m ckpt rank file =
     (let e = scr_filemap_entry m ckpt rank in
      scr_filemap_put m ckpt rank
        (e\<lparr>fm_files := (if file \<in> set (fm_files e) then fm_files e else fm_files e @ [file])\<rparr>))"

definition scr_filemap_set_desc :: "scr_filemap \<Rightarrow> int \<Rightarrow> int \<Rightarrow> scr_ckptdesc \<Rightarrow> scr_filemap" where
  "scr_filemap_set_desc m ckpt rank d =
     scr_filemap_put m ckpt rank ((scr_filemap_entry m ckpt rank)\<lparr>fm_desc := Some d\<rparr>)"

definition scr_filemap_remove_checkpoint :: "scr_filemap \<Rightarrow> int \<Rightarrow> scr_filemap" where
  "scr_filemap_remove_checkpoint m ckpt = filter (\<lambda>kv. fst (fst kv) \<noteq> ckpt) m"

text \<open>
  \<^verbatim>\<open>scr_ckptdesc_base_from_filemap\<close> (through \<^verbatim>\<open>scr_ckptdesc_val_from_filemap\<close>): \<^verbatim>\<open>NULL\<close>
  when the filemap has no descriptor for the checkpoint and rank, or the descriptor has no
  \<^verbatim>\<open>BASE\<close>.
\<close>

definition scr_ckptdesc_base_from_filemap :: "scr_filemap \<Rightarrow> int \<Rightarrow> int \<Rightarrow> string option" where
  "scr_ckptdesc_base_from_filemap m ckpt rank =
     (case scr_filemap_get_desc m ckpt rank of None \<Rightarrow> None | Some d \<Rightarrow> base d)"

section \<open>The state of the library and its entry points\<close>

text \<open>
  What the entry points do that can be seen from outside, in order: deleting a checkpoint
  from the cache, testing whether the asynchronous flush of a checkpoint is complete,
  completing that flush, creating a checkpoint directory.
\<close>

datatype event =
  Checkpoint_delete int | Flush_async_test int | Flush_async_complete int | Mkdir string

text \<open>
  The module-scope variables the entry points read and write, with the cache descriptors
  (\<^verbatim>\<open>BASE\<close> and \<^verbatim>\<open>SIZE\<close> of each entry of \<^verbatim>\<open>scr_cachedesc_hash\<close>, the size already through
  \<^verbatim>\<open>atoi\<close>), the filemap in memory (\<^verbatim>\<open>scr_map\<close>) and as last written to \<^verbatim>\<open>scr_map_file\<close>,
  the checkpoint ids the flush file marks \<^verbatim>\<open>FLUSHING\<close> (as \<^verbatim>\<open>scr_bool_is_flushing\<close> reports
  them after its all-reduce), which files \<^verbatim>\<open>access(file, R_OK)\<close> finds readable, and the
  trace of events.

  The asynchronous flush is the work of another program, which copies the files and
  records its progress in the transfer file. The library sees it when it reads that file:
  \<open>transfer_complete n\<close> tells whether the \<open>n\<close>-th reading finds every file written, on
  all processes, and \<open>transfer_reads\<close> counts the readings so far. \<open>check_files\<close> tells
  for a checkpoint whether \<^verbatim>\<open>scr_check_files\<close> finds the files of the checkpoint in the cache
  on all processes. \<^verbatim>\<open>scr_flush\<close> is the flush interval of the configuration. The cache
  and the flush file are changed by the library only.
\<close>

record scr_state =
  scr_enabled :: int
  scr_initialized :: int
  scr_in_checkpoint :: int
  scr_checkpoint_id :: int
  scr_my_rank_world :: int
  scr_my_rank_local :: int
  scr_ckptdescs :: "scr_ckptdesc list"
  scr_cachedescs :: "(string option \<times> int option) list"
  scr_map :: scr_filemap
  scr_map_file :: scr_filemap
  scr_flush :: int
  scr_flush_async_in_progress :: int
  scr_flush_async_checkpoint_id :: int
  flush_file_flushing :: "int \<Rightarrow> bool"
  check_files :: "int \<Rightarrow> bool"
  transfer_complete :: "nat \<Rightarrow> bool"
  transfer_reads :: nat
  access_R_OK :: "string \<Rightarrow> bool"
  trace :: "event list"

text \<open>
  Helpers of \<^verbatim>\<open>scr_util.c\<close>, \<^verbatim>\<open>scr_io.c\<close> and the C library that the entry points call and
  that are not part of the sources at hand, taken as parameters: the buffer size
  \<^verbatim>\<open>SCR_MAX_FILENAME\<close>, \<^verbatim>\<open>sprintf(dir, "%s/checkpoint.%d", ...)\<close>, \<^verbatim>\<open>scr_split_path\<close> (path
  and name of a file), \<^verbatim>\<open>scr_build_path\<close> (\<open>None\<close> when the result does not fit in \<open>n\<close>
  bytes) and \<^verbatim>\<open>scr_mkdir\<close>.
\<close>

record scr_util =
  SCR_MAX_FILENAME :: nat
  sprintf_checkpoint_dir :: "string \<Rightarrow> int \<Rightarrow> string"
  scr_split_path :: "string \<Rightarrow> string \<times> string"
  scr_build_path :: "nat \<Rightarrow> string \<Rightarrow> string \<Rightarrow> string option"
  scr_mkdir :: "string \<Rightarrow> scr_rc"

text \<open>
  \<^verbatim>\<open>scr_cachedesc_size\<close>. \<^verbatim>\<open>strcmp(b, base)\<close> with \<^verbatim>\<open>base = NULL\<close> reads through a
  \<^verbatim>\<open>NULL\<close> pointer.
\<close>

fun scr_cachedesc_size :: "(string option \<times> int option) list \<Rightarrow> string option \<Rightarrow> int outcome" where
  "scr_cachedesc_size [] base' = Return 0"
| "scr_cachedesc_size ((b, sz) # rest) base' =
     (case b of
        None \<Rightarrow> scr_cachedesc_size rest base'
      | Some b' \<Rightarrow>
         (case base' of
            None \<Rightarrow> Fault
          | Some base'' \<Rightarrow>
             if b' = base'' then Return (case sz of Some n \<Rightarrow> n | None \<Rightarrow> 0)
             else scr_cachedesc_size rest base'))"

text \<open>\<^verbatim>\<open>scr_checkpoint_dir\<close> and \<^verbatim>\<open>scr_checkpoint_dir_create\<close>.\<close>

definition scr_checkpoint_dir :: "scr_util \<Rightarrow> scr_ckptdesc option \<Rightarrow> int \<Rightarrow> string outcome" where
  "scr_checkpoint_dir u c checkpoint_id =
     (case c of
        None \<Rightarrow> Abort
      | Some c' \<Rightarrow>
         (case directory c' of
            None \<Rightarrow> Abort
          | Some d \<Rightarrow> Return (sprintf_checkpoint_dir u d checkpoint_id)))"

definition scr_checkpoint_dir_create ::
  "scr_util \<Rightarrow> scr_ckptdesc \<Rightarrow> int \<Rightarrow> scr_state \<Rightarrow> scr_state outcome" where
  "scr_checkpoint_dir_create u c checkpoint_id s =
     (if scr_my_rank_local s = 0 then
        (case scr_checkpoint_dir u (Some c) checkpoint_id of
           Return dir \<Rightarrow>
             if scr_mkdir u dir \<noteq> SCR_SUCCESS then Abort
             else Return (s\<lparr>trace := trace s @ [Mkdir dir]\<rparr>)
         | Abort \<Rightarrow> Abort
         | Fault \<Rightarrow> Fault)
      else Return s)"

text \<open>
  \<^verbatim>\<open>scr_checkpoint_delete\<close>: the files and the directory of the checkpoint go, its entry
  leaves the flush file, the checkpoint leaves the filemap and the filemap is written.
\<close>

definition scr_checkpoint_delete :: "scr_state \<Rightarrow> int \<Rightarrow> scr_state" where
  "scr_checkpoint_delete s checkpoint_id =
     s\<lparr>flush_file_flushing := (flush_file_flushing s)(checkpoint_id := False),
       scr_map := scr_filemap_remove_checkpoint (scr_map s) checkpoint_id,
       scr_map_file := scr_filemap_remove_checkpoint (scr_map s) checkpoint_id,
       trace := trace s @ [Checkpoint_delete checkpoint_id]\<rparr>"

definition scr_bool_is_flushing :: "scr_state \<Rightarrow> int \<Rightarrow> int" where
  "scr_bool_is_flushing s checkpoint_id = (if flush_file_flushing s checkpoint_id then 1 else 0)"

text \<open>
  \<^verbatim>\<open>scr_flush_async_test\<close>: whether the flush of the checkpoint is complete. It fails at
  once when flushing is switched off or files of the checkpoint are missing; otherwise it
  reads the transfer file.
\<close>

definition scr_flush_async_test :: "scr_state \<Rightarrow> int \<Rightarrow> scr_rc \<times> scr_state" where
  "scr_flush_async_test s checkpoint_id =
     (let s = s\<lparr>trace := trace s @ [Flush_async_test checkpoint_id]\<rparr>
      in if scr_flush s \<le> 0 then (SCR_FAILURE, s)
         else if \<not> check_files s checkpoint_id then (SCR_FAILURE, s)
         else (if transfer_complete s (transfer_reads s) then SCR_SUCCESS else SCR_FAILURE,
               s\<lparr>transfer_reads := transfer_reads s + 1\<rparr>))"

text \<open>
  \<^verbatim>\<open>scr_flush_async_complete\<close>: after the same two tests (on which it returns at once) it
  writes the summary, clears \<^verbatim>\<open>scr_flush_async_in_progress\<close> and takes the \<^verbatim>\<open>FLUSHING\<close>
  mark of the checkpoint out of the flush file. Its return code, which tells whether the
  summary could be written, is not used by the caller below and is left out.
\<close>

definition scr_flush_async_complete :: "scr_state \<Rightarrow> int \<Rightarrow> scr_state" where
  "scr_flush_async_complete s checkpoint_id =
     (if scr_flush s \<le> 0 then s
      else if \<not> check_files s checkpoint_id then s
      else s\<lparr>scr_flush_async_in_progress := 0,
             flush_file_flushing := (flush_file_flushing s)(checkpoint_id := False),
             trace := trace s @ [Flush_async_complete checkpoint_id]\<rparr>)"

text \<open>
  \<^verbatim>\<open>scr_flush_async_wait\<close>: if an asynchronous flush is in progress,
  \<^verbatim>\<open>while (scr_bool_is_flushing(scr_flush_async_checkpoint_id))\<close> test the flush, complete
  it if the test succeeds and sleep otherwise. The checkpoint waited for is the one of the
  flush in progress; the function takes no checkpoint id. Nothing bounds the number of
  rounds: \<open>None\<close> is a loop that does not end.
\<close>

partial_function (option) scr_flush_async_wait_loop :: "scr_state \<Rightarrow> scr_state option" where
  "scr_flush_async_wait_loop s =
     (if scr_bool_is_flushing s (scr_flush_async_checkpoint_id s) \<noteq> 0 then
        (let r = scr_flush_async_test s (scr_flush_async_checkpoint_id s)
         in if fst r = SCR_SUCCESS
            then scr_flush_async_wait_loop
                   (scr_flush_async_complete (snd r) (scr_flush_async_checkpoint_id (snd r)))
            else scr_flush_async_wait_loop (snd r))
      else Some s)"

declare scr_flush_async_wait_loop.simps [code]

definition scr_flush_async_wait :: "scr_state \<Rightarrow> scr_state option" where
  "scr_flush_async_wait s =
     (if scr_flush_async_in_progress s \<noteq> 0 then scr_flush_async_wait_loop s else Some s)"

text \<open>
  The first loop of \<^verbatim>\<open>SCR_Start_checkpoint\<close> over the cached checkpoints: count those in
  the base of the new checkpoint.
\<close>

fun count_in_base :: "scr_state \<Rightarrow> string option \<Rightarrow> int list \<Rightarrow> int \<Rightarrow> int outcome" where
  "count_in_base s cbase [] nckpts_base = Return nckpts_base"
| "count_in_base s cbase (ck # cks) nckpts_base =
     (case scr_ckptdesc_base_from_filemap (scr_map s) ck (scr_my_rank_world s) of
        None \<Rightarrow> count_in_base s cbase cks nckpts_base
      | Some b \<Rightarrow>
         (case cbase of
            None \<Rightarrow> Fault
          | Some cb \<Rightarrow>
             if b = cb then count_in_base s cbase cks (nckpts_base + 1)
             else count_in_base s cbase cks nckpts_base))"

text \<open>
  The second loop, \<^verbatim>\<open>for (i=0; i < nckpts && nckpts_base >= size; i++)\<close>: delete
  checkpoints of the base until there is room, and remember the first one that is being
  flushed.
\<close>

fun evict_loop ::
  "string option \<Rightarrow> int \<Rightarrow> int list \<Rightarrow> scr_state \<Rightarrow> int \<Rightarrow> int \<Rightarrow> (scr_state \<times> int \<times> int) outcome" where
  "evict_loop cbase size' [] s nckpts_base flushing = Return (s, nckpts_base, flushing)"
| "evict_loop cbase size' (ck # cks) s nckpts_base flushing =
     (if nckpts_base \<ge> size' then
        (case scr_ckptdesc_base_from_filemap (scr_map s) ck (scr_my_rank_world s) of
           None \<Rightarrow> evict_loop cbase size' cks s nckpts_base flushing
         | Some b \<Rightarrow>
            (case cbase of
               None \<Rightarrow> Fault
             | Some cb \<Rightarrow>
                if b = cb then
                  (if scr_bool_is_flushing s ck = 0
                   then evict_loop cbase size' cks (scr_checkpoint_delete s ck) (nckpts_base - 1) flushing
                   else if flushing = - 1 then evict_loop cbase size' cks s nckpts_base ck
                   else evict_loop cbase size' cks s nckpts_base flushing)
                else evict_loop cbase size' cks s nckpts_base flushing))
      else Return (s, nckpts_base, flushing))"

text \<open>
  The cache management of \<^verbatim>\<open>SCR_Start_checkpoint\<close>, from
  \<^verbatim>\<open>scr_filemap_list_checkpoints\<close> to the wait for the flush and the deletion that follows
  it, for a descriptor whose base is \<open>cbase\<close>. \<open>None\<close> is a call that does not come back
  from \<^verbatim>\<open>scr_flush_async_wait\<close>.
\<close>

definition start_make_room :: "string option \<Rightarrow> scr_state \<Rightarrow> scr_state outcome option" where
  "start_make_room cbase s =
     (let ckpts = scr_filemap_list_checkpoints (scr_map s) in
      case scr_cachedesc_size (scr_cachedescs s) cbase of
        Abort \<Rightarrow> Some Abort
      | Fault \<Rightarrow> Some Fault
      | Return size' \<Rightarrow>
         (case count_in_base s cbase ckpts 0 of
            Abort \<Rightarrow> Some Abort
          | Fault \<Rightarrow> Some Fault
          | Return nckpts_base \<Rightarrow>
             (case evict_loop cbase size' ckpts s nckpts_base (- 1) of
                Abort \<Rightarrow> Some Abort
              | Fault \<Rightarrow> Some Fault
              | Return (s', nckpts_base', flushing) \<Rightarrow>
                 if nckpts_base' \<ge> size' \<and> flushing \<noteq> - 1
                 then (case scr_flush_async_wait s' of
                         None \<Rightarrow> None
                       | Some s' \<Rightarrow> Some (Return (scr_checkpoint_delete s' flushing)))
                 else Some (Return s'))))"

text \<open>
  \<^verbatim>\<open>SCR_Start_checkpoint\<close>. The descriptor \<^verbatim>\<open>c\<close> comes from \<^verbatim>\<open>scr_ckptdesc_get\<close> and is
  used without a test: \<^verbatim>\<open>scr_cachedesc_size(c->base)\<close> reads through it.
\<close>

definition SCR_Start_checkpoint ::
  "scr_util \<Rightarrow> scr_state \<Rightarrow> (scr_rc \<times> scr_state) outcome option" where
  "SCR_Start_checkpoint u s =
     (if scr_enabled s = 0 then Some (Return (SCR_FAILURE, s))
      else if scr_initialized s = 0 then Some Abort
      else if scr_in_checkpoint s \<noteq> 0 then Some Abort
      else
        (let s = s\<lparr>scr_in_checkpoint := 1\<rparr>;
             s = s\<lparr>scr_checkpoint_id := scr_checkpoint_id s + 1\<rparr>
         in case scr_ckptdesc_get (scr_checkpoint_id s) (scr_ckptdescs s) of
              None \<Rightarrow> Some Fault
            | Some i \<Rightarrow>
               (let c = scr_ckptdescs s ! i in
                case start_make_room (base c) s of
                  None \<Rightarrow> None
                | Some Abort \<Rightarrow> Some Abort
                | Some Fault \<Rightarrow> Some Fault
                | Some (Return s) \<Rightarrow>
                   (let m = scr_filemap_set_desc (scr_map s) (scr_checkpoint_id s) (scr_my_rank_world s) c;
                        s = s\<lparr>scr_map := m, scr_map_file := m\<rparr>
                    in case scr_checkpoint_dir_create u c (scr_checkpoint_id s) s of
                         Abort \<Rightarrow> Some Abort
                       | Fault \<Rightarrow> Some Fault
                       | Return s \<Rightarrow> Some (Return (SCR_SUCCESS, s))))))"

text \<open>
  \<^verbatim>\<open>scr_route_file\<close>: the path in the cache for a file of the user, \<open>newfile_null\<close> telling
  whether the caller passed \<^verbatim>\<open>NULL\<close> for the result buffer.
\<close>

definition scr_route_file ::
  "scr_util \<Rightarrow> scr_state \<Rightarrow> int \<Rightarrow> string option \<Rightarrow> bool \<Rightarrow> nat \<Rightarrow> (scr_rc \<times> string) outcome" where
  "scr_route_file u s checkpoint_id file newfile_null n =
     (case file of
        None \<Rightarrow> Return (SCR_FAILURE, [])
      | Some f \<Rightarrow>
         if f = [] \<or> newfile_null then Return (SCR_FAILURE, [])
         else if length f \<ge> SCR_MAX_FILENAME u then Abort
         else
           (let name = snd (scr_split_path u f);
                c = map_option (\<lambda>i. scr_ckptdescs s ! i)
                      (scr_ckptdesc_get checkpoint_id (scr_ckptdescs s))
            in case scr_checkpoint_dir u c checkpoint_id of
                 Abort \<Rightarrow> Abort
               | Fault \<Rightarrow> Fault
               | Return ckpt_dir \<Rightarrow>
                  (case scr_build_path u n ckpt_dir name of
                     None \<Rightarrow> Abort
                   | Some newfile \<Rightarrow> Return (SCR_SUCCESS, newfile))))"

text \<open>
  \<^verbatim>\<open>SCR_Route_file\<close>: the return code, the state and the routed path (empty when none was
  written).
\<close>

definition SCR_Route_file ::
  "scr_util \<Rightarrow> scr_state \<Rightarrow> string option \<Rightarrow> bool \<Rightarrow> (scr_rc \<times> scr_state \<times> string) outcome" where
  "SCR_Route_file u s file newfile_null =
     (if scr_enabled s = 0 then Return (SCR_FAILURE, s, [])
      else if scr_initialized s = 0 then Abort
      else
        (case scr_route_file u s (scr_checkpoint_id s) file newfile_null (SCR_MAX_FILENAME u) of
           Abort \<Rightarrow> Abort
         | Fault \<Rightarrow> Fault
         | Return (rc, newfile) \<Rightarrow>
            if rc \<noteq> SCR_SUCCESS then Return (SCR_FAILURE, s, newfile)
            else if scr_in_checkpoint s \<noteq> 0 then
              (let m = scr_filemap_add_file (scr_map s) (scr_checkpoint_id s) (scr_my_rank_world s) newfile
               in Return (SCR_SUCCESS, s\<lparr>scr_map := m, scr_map_file := m\<rparr>, newfile))
            else if \<not> access_R_OK s newfile then Return (SCR_FAILURE, s, newfile)
            else Return (SCR_SUCCESS, s, newfile)))"

text \<open>
  \<^verbatim>\<open>SCR_Complete_checkpoint\<close>. Its body between the three tests and the last barrier (the
  sidecars, the redundancy scheme, the halt and flush checks) is the argument \<open>work\<close>,
  which gives the return code \<^verbatim>\<open>rc\<close> and the new state, or does not come back (it waits
  for flushes too); after it the function clears \<^verbatim>\<open>scr_in_checkpoint\<close> and returns \<^verbatim>\<open>rc\<close>.
\<close>

definition SCR_Complete_checkpoint ::
  "(int \<Rightarrow> scr_state \<Rightarrow> (scr_rc \<times> scr_state) outcome option) \<Rightarrow> scr_state \<Rightarrow> int \<Rightarrow>
     (scr_rc \<times> scr_state) outcome option" where
  "SCR_Complete_checkpoint work s valid =
     (if scr_enabled s = 0 then Some (Return (SCR_FAILURE, s))
      else if scr_initialized s = 0 then Some Abort
      else if scr_in_checkpoint s = 0 then Some Abort
      else
        (case work valid s of
           None \<Rightarrow> None
         | Some Abort \<Rightarrow> Some Abort
         | Some Fault \<Rightarrow> Some Fault
         | Some (Return (rc, s)) \<Rightarrow> Some (Return (rc, s\<lparr>scr_in_checkpoint := 0\<rparr>))))"

text \<open>
  The hop distance after the two loops of \<^verbatim>\<open>scr_set_partners\<close>, in closed form.
\<close>

definition shifted :: "int \<Rightarrow> int \<Rightarrow> int" where
  "shifted d n =
     (let d1 = (if n < d then (d - 1) mod n + 1 else d) in if d1 < 0 then d1 mod n else d1)"









text \<open>
  The state once the asynchronous flush in progress has been waited for and has been found
  complete at the test number \<open>k + 1\<close>: the transfer file has been read \<open>k + 1\<close> times,
  no flush is in progress any more, and the checkpoint of the flush is no longer marked
  \<^verbatim>\<open>FLUSHING\<close>.
\<close>

definition waited :: "scr_state \<Rightarrow> nat \<Rightarrow> scr_state" where
  "waited s k =
     s\<lparr>scr_flush_async_in_progress := 0,
       flush_file_flushing := (flush_file_flushing s)(scr_flush_async_checkpoint_id s := False),
       transfer_reads := transfer_reads s + Suc k,
       trace := trace s @ replicate (Suc k) (Flush_async_test (scr_flush_async_checkpoint_id s)) @
                [Flush_async_complete (scr_flush_async_checkpoint_id s)]\<rparr>"


text \<open>
  A call is rejected: it ends in \<^verbatim>\<open>scr_abort\<close>, or it returns \<^verbatim>\<open>SCR_FAILURE\<close> and leaves
  the state as it was.
\<close>

definition rejected :: "(scr_rc \<times> scr_state) outcome option \<Rightarrow> scr_state \<Rightarrow> bool" where
  "rejected out s \<longleftrightarrow> out = Some Abort \<or> out = Some (Return (SCR_FAILURE, s))"

section \<open>Example inputs\<close>

text \<open>
  Concrete inputs on which the theorems below are evaluated. The helpers are stand-ins of
  the right shape (the formatter prints the ids 1 to 3, which are the ones used here).
\<close>

definition example_util :: scr_util where
  "example_util =
     \<lparr> SCR_MAX_FILENAME = 1024,
       sprintf_checkpoint_dir =
         (\<lambda>d i. d @ ''/checkpoint.'' @
            (if i = 1 then ''1'' else if i = 2 then ''2'' else if i = 3 then ''3'' else ''n'')),
       scr_split_path = (\<lambda>f. ([], f)),
       scr_build_path = (\<lambda>n d f. if length d + 1 + length f < n then Some (d @ ''/'' @ f) else None),
       scr_mkdir = (\<lambda>d. SCR_SUCCESS) \<rparr>"

definition example_desc :: scr_ckptdesc where
  "example_desc =
     scr_ckptdesc_init\<lparr>enabled := 1, index := 0, interval := 1, base := Some ''/ram'',
       directory := Some ''/ram/u/scr.7/index.0'', copy_type := SCR_COPY_LOCAL\<rparr>"

text \<open>
  A process between two checkpoints: checkpoints 1 and 2 are cached in the base
  \<^verbatim>\<open>/ram\<close>, whose cache holds one checkpoint, and checkpoint 1 is being flushed.
\<close>

definition example_state :: scr_state where
  "example_state =
     \<lparr> scr_enabled = 1, scr_initialized = 1, scr_in_checkpoint = 0, scr_checkpoint_id = 2,
       scr_my_rank_world = 0, scr_my_rank_local = 0,
       scr_ckptdescs = [example_desc],
       scr_cachedescs = [(Some ''/ram'', Some 1)],
       scr_map = [((1, 0), \<lparr>fm_files = [''a''], fm_desc = Some example_desc\<rparr>),
                  ((2, 0), \<lparr>fm_files = [''b''], fm_desc = Some example_desc\<rparr>)],
       scr_map_file = [((1, 0), \<lparr>fm_files = [''a''], fm_desc = Some example_desc\<rparr>),
                       ((2, 0), \<lparr>fm_files = [''b''], fm_desc = Some example_desc\<rparr>)],
       scr_flush = 1, scr_flush_async_in_progress = 1, scr_flush_async_checkpoint_id = 1,
       flush_file_flushing = (\<lambda>i. i = 1), check_files = (\<lambda>i. True),
       transfer_complete = (\<lambda>n. 1 \<le> n), transfer_reads = 0,
       access_R_OK = (\<lambda>f. f = ''/ram/u/scr.7/index.0/checkpoint.2/b''),
       trace = [] \<rparr>"






text \<open>
  A file system with one kind of file: readable, ten bytes long, with a complete sidecar
  for checkpoint 1, rank 0 of 4 and size 10 that names another file and the type
  \<^verbatim>\<open>XOR\<close>.
\<close>

definition example_fs :: scr_fs where
  "example_fs =
     \<lparr> fs_readable = (\<lambda>f. True),
       fs_meta = (\<lambda>f. Some \<lparr> meta_filename = Some ''other.ckpt'', meta_filetype = Some ''XOR'',
                              meta_filesize = Some 10, meta_checkpoint_id = Some 1,
                              meta_rank = Some 0, meta_ranks = Some 4, meta_complete = Some 1,
                              meta_crc32 = None \<rparr>),
       fs_filesize = (\<lambda>f. 10) \<rparr>"

text \<open>
  Members of an XOR set: one that has its files and its XOR file, one that lost them; the
  rebuild succeeds on both.
\<close>

definition example_member_ok :: xor_member where
  "example_member_ok = \<lparr>have_files = 1, have_xor_file = 1, rebuild_xor_rc = (\<lambda>root. SCR_SUCCESS)\<rparr>"

definition example_member_lost :: xor_member where
  "example_member_lost = \<lparr>have_files = 0, have_xor_file = 0, rebuild_xor_rc = (\<lambda>root. SCR_SUCCESS)\<rparr>"

text \<open>
  A job of four processes whose descriptor hash has a base and a \<^verbatim>\<open>TYPE\<close>: on four nodes,
  one process per node; and on three nodes, where the processes of ranks 0 and 1 share a
  node. The hop distance is 1 and the set size 8.
\<close>

definition example_hash :: "string \<Rightarrow> scr_hash" where
  "example_hash value =
     \<lparr> SCR_CONFIG_KEY_ENABLED = None, SCR_CONFIG_KEY_INDEX = None, SCR_CONFIG_KEY_INTERVAL = None,
       SCR_CONFIG_KEY_BASE = Some ''/ram'', SCR_CONFIG_KEY_DIRECTORY = None,
       SCR_CONFIG_KEY_HOP_DISTANCE = None, SCR_CONFIG_KEY_SET_SIZE = None,
       SCR_CONFIG_KEY_TYPE = Some value, SCR_CONFIG_KEY_GROUP_ID = None,
       SCR_CONFIG_KEY_GROUP_RANK = None \<rparr>"

definition example_proc :: "string \<Rightarrow> int \<Rightarrow> int \<Rightarrow> string \<Rightarrow> scr_proc" where
  "example_proc host rank_local ranks_local value =
     \<lparr> scr_my_hostname = host, proc_my_rank_local = rank_local, scr_ranks_local = ranks_local,
       scr_ranks_world = 4, scr_username = ''u'', scr_jobid = ''7'', scr_hop_distance = 1,
       scr_set_size = 8, proc_c = Some scr_ckptdesc_init, proc_hash = Some (example_hash value) \<rparr>"

definition example_world :: "string \<Rightarrow> scr_proc list" where
  "example_world value =
     [example_proc ''n0'' 0 1 value, example_proc ''n1'' 0 1 value,
      example_proc ''n2'' 0 1 value, example_proc ''n3'' 0 1 value]"

definition example_world2 :: "string \<Rightarrow> scr_proc list" where
  "example_world2 value =
     [example_proc ''n0'' 0 2 value, example_proc ''n0'' 1 2 value,
      example_proc ''n1'' 0 1 value, example_proc ''n2'' 0 1 value]"

section \<open>Properties: partner selection\<close>

lemma shift_down_closed:
  "1 \<le> n \<Longrightarrow> scr_set_partners_shift_down d n =
      Some (if n < d then (d - 1) mod n + 1 else d)"
proof (induction "nat (d - n)" arbitrary: d rule: less_induct)
  case less
  show ?case
  proof (cases "n < d")
    case True
    have m: "nat (d - n - n) < nat (d - n)" using True less.prems by simp
    have ih: "scr_set_partners_shift_down (d - n) n =
        Some (if n < d - n then (d - n - 1) mod n + 1 else d - n)"
      by (rule less.hyps[OF m less.prems])
    have e1: "(d - n - 1) mod n = (d - 1) mod n"
    proof -
      have "d - n - 1 = (d - 1) - n" by simp
      then show ?thesis by (simp only: minus_mod_self2)
    qed
    have e2: "(d - 1) mod n + 1 = d - n" if "\<not> n < d - n"
    proof -
      have "0 \<le> d - n - 1" "d - n - 1 < n" using True that by simp_all
      then have "(d - n - 1) mod n = d - n - 1" by (rule mod_pos_pos_trivial)
      with e1 show ?thesis by simp
    qed
    have "scr_set_partners_shift_down d n = scr_set_partners_shift_down (d - n) n"
      using True by (subst scr_set_partners_shift_down.simps) simp
    also note ih
    finally show ?thesis using True e1 e2 by simp
  next
    case False
    then show ?thesis by (subst scr_set_partners_shift_down.simps) simp
  qed
qed

lemma shift_up_closed:
  "1 \<le> n \<Longrightarrow> scr_set_partners_shift_up d n = Some (if d < 0 then d mod n else d)"
proof (induction "nat (- d)" arbitrary: d rule: less_induct)
  case less
  show ?case
  proof (cases "d < 0")
    case True
    have m: "nat (- (d + n)) < nat (- d)" using True less.prems by simp
    have ih: "scr_set_partners_shift_up (d + n) n =
        Some (if d + n < 0 then (d + n) mod n else d + n)"
      by (rule less.hyps[OF m less.prems])
    have e2: "d mod n = d + n" if "\<not> d + n < 0"
    proof -
      have "0 \<le> d + n" "d + n < n" using True that by simp_all
      then have "(d + n) mod n = d + n" by (rule mod_pos_pos_trivial)
      then show ?thesis by simp
    qed
    have "scr_set_partners_shift_up d n = scr_set_partners_shift_up (d + n) n"
      using True by (subst scr_set_partners_shift_up.simps) simp
    also note ih
    finally show ?thesis using True e2 by simp
  next
    case False
    then show ?thesis by (subst scr_set_partners_shift_up.simps) simp
  qed
qed

text \<open>The shifted distance lies between 0 and the size, and is congruent to the given one.\<close>

lemma shifted_range: "1 \<le> n \<Longrightarrow> 0 \<le> shifted d n \<and> shifted d n \<le> n"
proof -
  assume n: "1 \<le> n"
  have a: "0 \<le> (d - 1) mod n + 1" "(d - 1) mod n + 1 \<le> n"
    using pos_mod_sign[of n "d - 1"] pos_mod_bound[of n "d - 1"] n by linarith+
  have b: "0 \<le> d mod n" "d mod n \<le> n"
    using pos_mod_sign[of n d] pos_mod_bound[of n d] n by linarith+
  show ?thesis
  proof (cases "n < d")
    case True
    then show ?thesis using a by (simp add: shifted_def Let_def)
  next
    case False
    then show ?thesis using b by (simp add: shifted_def Let_def)
  qed
qed

lemma shifted_cong: "1 \<le> n \<Longrightarrow> shifted d n mod n = d mod n"
proof -
  assume n: "1 \<le> n"
  have "((d - 1) mod n + 1) mod n = d mod n"
  proof -
    have "((d - 1) mod n + 1) mod n = ((d - 1) + 1) mod n" by (rule mod_add_left_eq)
    then show ?thesis by simp
  qed
  moreover have "0 \<le> (d - 1) mod n" using n by simp
  ultimately show ?thesis by (auto simp: shifted_def Let_def)
qed

lemma smod_nonneg: "0 \<le> a \<Longrightarrow> 0 < b \<Longrightarrow> (a::int) smod b = a mod b"
  by (simp add: smod_int_alt_def sgn_if)

lemma scr_set_partners_closed:
  assumes "comm \<noteq> []"
  shows "scr_set_partners comm my_rank' d =
     (let n = int (length comm);
          lhs = (int my_rank' + n - shifted d n) smod n;
          rhs = (int my_rank' + n + shifted d n) smod n
      in Some \<lparr> p_lhs_rank = lhs, p_lhs_rank_world = fst (comm ! nat lhs),
                p_lhs_hostname = snd (comm ! nat lhs), p_rhs_rank = rhs,
                p_rhs_rank_world = fst (comm ! nat rhs), p_rhs_hostname = snd (comm ! nat rhs) \<rparr>)"
proof -
  have n: "1 \<le> int (length comm)" using assms by (cases comm) simp_all
  show ?thesis
    unfolding scr_set_partners_def Let_def
    using assms by (simp add: shift_down_closed[OF n] shift_up_closed[OF n] shifted_def Let_def)
qed

text \<open>
  The sums the function takes the remainder of are not negative and stay below three times
  the size of the communicator, so they are within a C \<^verbatim>\<open>int\<close> for any size up to a third
  of \<^verbatim>\<open>INT_MAX\<close>.
\<close>

lemma scr_set_partners_sums_bounded:
  assumes "my_rank' < length comm"
  shows "0 \<le> int my_rank' + int (length comm) - shifted d (int (length comm)) \<and>
         int my_rank' + int (length comm) + shifted d (int (length comm)) < 3 * int (length comm)"
proof -
  have n: "1 \<le> int (length comm)" using assms by (cases comm) simp_all
  from shifted_range[OF n, of d] assms show ?thesis by simp
qed

text \<open>
  C7. In \<^verbatim>\<open>scr_set_partners\<close>, for every communicator with at least one member and every
  integer hop distance (at least the size, zero or negative included), the call returns,
  the left partner rank is \<open>(my_rank - dist) mod ranks\<close> and the right partner rank is
  \<open>(my_rank + dist) mod ranks\<close>, with \<open>mod\<close> the remainder in \<open>0 ..< ranks\<close>.
\<close>

theorem scr_set_partners_ranks:
  assumes "comm \<noteq> []"
  shows "\<exists>r. scr_set_partners comm my_rank' d = Some r \<and>
           p_lhs_rank r = (int my_rank' - d) mod int (length comm) \<and>
           p_rhs_rank r = (int my_rank' + d) mod int (length comm)"
proof -
  let ?n = "int (length comm)"
  let ?m = "int my_rank'"
  let ?s = "shifted d ?n"
  have n: "1 \<le> ?n" using assms by (cases comm) simp_all
  have rg: "0 \<le> ?s" "?s \<le> ?n" using shifted_range[OF n, of d] by simp_all
  have cg: "?s mod ?n = d mod ?n" by (rule shifted_cong[OF n])
  have l: "(?m + ?n - ?s) smod ?n = (?m - d) mod ?n"
  proof -
    have "(?m + ?n - ?s) smod ?n = (?m + ?n - ?s) mod ?n"
      using rg n assms by (intro smod_nonneg) simp_all
    also have "\<dots> = ((?m - ?s) + ?n) mod ?n" by (simp add: algebra_simps)
    also have "\<dots> = (?m - ?s) mod ?n" by (rule mod_add_self2)
    also have "\<dots> = (?m - ?s mod ?n) mod ?n" by (simp add: mod_diff_right_eq)
    also have "\<dots> = (?m - d mod ?n) mod ?n" by (simp only: cg)
    also have "\<dots> = (?m - d) mod ?n" by (simp add: mod_diff_right_eq)
    finally show ?thesis .
  qed
  have r: "(?m + ?n + ?s) smod ?n = (?m + d) mod ?n"
  proof -
    have "(?m + ?n + ?s) smod ?n = (?m + ?n + ?s) mod ?n"
      using rg n assms by (intro smod_nonneg) simp_all
    also have "\<dots> = ((?m + ?s) + ?n) mod ?n" by (simp add: algebra_simps)
    also have "\<dots> = (?m + ?s) mod ?n" by (rule mod_add_self2)
    also have "\<dots> = (?m + ?s mod ?n) mod ?n" by (simp add: mod_add_right_eq)
    also have "\<dots> = (?m + d mod ?n) mod ?n" by (simp only: cg)
    also have "\<dots> = (?m + d) mod ?n" by (simp add: mod_add_right_eq)
    finally show ?thesis .
  qed
  show ?thesis
    unfolding scr_set_partners_closed[OF assms] Let_def using l r by simp
qed

text \<open>
  The theorem at a communicator of three members, for the member of rank 1 and the hop
  distance \<open>- 7\<close>: the left partner is rank 2, the right partner rank 0.
\<close>

theorem scr_set_partners_ranks_witness:
  "\<exists>r. scr_set_partners [(0, ''a''), (1, ''b''), (2, ''c'')] 1 (- 7) = Some r \<and>
        p_lhs_rank r = 2 \<and> p_rhs_rank r = 0"
  using scr_set_partners_ranks[of "[(0, ''a''), (1, ''b''), (2, ''c'')]" 1 "- 7"] by simp

section \<open>Properties: descriptor selection\<close>

lemma smod_eq_0_iff_dvd: "b \<noteq> 0 \<Longrightarrow> (a::int) smod b = 0 \<longleftrightarrow> b dvd a"
proof -
  assume "b \<noteq> 0"
  have "a smod b = 0 \<longleftrightarrow> a = 0 \<or> \<bar>a\<bar> mod \<bar>b\<bar> = 0"
    by (simp add: smod_int_alt_def sgn_if)
  also have "\<bar>a\<bar> mod \<bar>b\<bar> = 0 \<longleftrightarrow> \<bar>b\<bar> dvd \<bar>a\<bar>"
    by (rule mod_eq_0_iff_dvd)
  also have "\<bar>b\<bar> dvd \<bar>a\<bar> \<longleftrightarrow> b dvd a"
    by simp
  finally show ?thesis by auto
qed

text \<open>
  The invariant of the loop of \<^verbatim>\<open>scr_ckptdesc_get\<close>, started at index \<open>i\<close> with the pointer
  \<open>c\<close> and a running interval \<open>m\<close> that is not negative: the final interval bounds the
  intervals of all descriptors that apply, and either nothing changed or the final pointer
  is the first descriptor with the final interval.
\<close>

lemma scr_ckptdesc_get_loop_inv:
  "0 \<le> m \<Longrightarrow> scr_ckptdesc_get_loop cid ds i (c, m) = (c', m') \<Longrightarrow>
    m \<le> m' \<and>
    (\<forall>j<length ds. applies cid (ds ! j) \<longrightarrow> interval (ds ! j) \<le> m') \<and>
    ((c' = c \<and> m' = m) \<or>
     (\<exists>j<length ds. c' = Some (i + j) \<and> applies cid (ds ! j) \<and> interval (ds ! j) = m' \<and> m < m' \<and>
        (\<forall>k<j. applies cid (ds ! k) \<longrightarrow> interval (ds ! k) < m')))"
proof (induction ds arbitrary: i c m)
  case Nil
  then show ?case by simp
next
  case (Cons d ds)
  show ?case
  proof (cases "enabled d \<noteq> 0 \<and> m < interval d \<and> cid smod interval d = 0")
    case True
    then have ap: "applies cid d" using Cons.prems(1) by (auto simp: applies_def smod_eq_0_iff_dvd)
    from True Cons.prems have r: "scr_ckptdesc_get_loop cid ds (Suc i) (Some i, interval d) = (c', m')"
      by simp
    have nn: "0 \<le> interval d" using True Cons.prems(1) by simp
    note ih = Cons.IH[OF nn r]
    from ih have le: "interval d \<le> m'" by simp
    from ih have all: "\<forall>j<length ds. applies cid (ds ! j) \<longrightarrow> interval (ds ! j) \<le> m'" by simp
    from ih consider (same) "c' = Some i" "m' = interval d"
      | (later) j where "j < length ds" "c' = Some (Suc i + j)" "applies cid (ds ! j)"
          "interval (ds ! j) = m'" "interval d < m'"
          "\<forall>k<j. applies cid (ds ! k) \<longrightarrow> interval (ds ! k) < m'"
      by blast
    then have "\<exists>j<length (d # ds). c' = Some (i + j) \<and> applies cid ((d # ds) ! j) \<and>
        interval ((d # ds) ! j) = m' \<and> m < m' \<and>
        (\<forall>k<j. applies cid ((d # ds) ! k) \<longrightarrow> interval ((d # ds) ! k) < m')"
    proof cases
      case same
      then show ?thesis using ap True by (intro exI[of _ 0]) simp
    next
      case later
      then show ?thesis using True by (intro exI[of _ "Suc j"]) (simp add: All_less_Suc2)
    qed
    moreover have "\<forall>j<length (d # ds). applies cid ((d # ds) ! j) \<longrightarrow> interval ((d # ds) ! j) \<le> m'"
      using le all by (simp add: All_less_Suc2)
    moreover have "m \<le> m'" using True le by simp
    ultimately show ?thesis by (intro conjI disjI2) assumption+
  next
    case False
    with Cons.prems have r: "scr_ckptdesc_get_loop cid ds (Suc i) (c, m) = (c', m')"
      by simp
    note ih = Cons.IH[OF Cons.prems(1) r]
    from ih have le: "m \<le> m'" by simp
    have d: "applies cid d \<longrightarrow> interval d \<le> m"
      using False Cons.prems(1) by (auto simp: applies_def smod_eq_0_iff_dvd)
    from ih have all: "\<forall>j<length ds. applies cid (ds ! j) \<longrightarrow> interval (ds ! j) \<le> m'" by simp
    have all': "\<forall>j<length (d # ds). applies cid ((d # ds) ! j) \<longrightarrow> interval ((d # ds) ! j) \<le> m'"
      using le d all by (auto simp add: All_less_Suc2)
    from ih consider (same) "c' = c" "m' = m"
      | (later) j where "j < length ds" "c' = Some (Suc i + j)" "applies cid (ds ! j)"
          "interval (ds ! j) = m'" "m < m'"
          "\<forall>k<j. applies cid (ds ! k) \<longrightarrow> interval (ds ! k) < m'"
      by blast
    then show ?thesis
    proof cases
      case same
      then show ?thesis using all' by simp
    next
      case later
      have "\<exists>j<length (d # ds). c' = Some (i + j) \<and> applies cid ((d # ds) ! j) \<and>
        interval ((d # ds) ! j) = m' \<and> m < m' \<and>
        (\<forall>k<j. applies cid ((d # ds) ! k) \<longrightarrow> interval ((d # ds) ! k) < m')"
        using later d by (intro exI[of _ "Suc j"]) (auto simp add: All_less_Suc2)
      with all' le show ?thesis by (intro conjI disjI2) assumption+
    qed
  qed
qed

lemma scr_ckptdesc_get_None_iff:
  "scr_ckptdesc_get cid ds = None \<longleftrightarrow> (\<forall>j<length ds. \<not> applies cid (ds ! j))"
proof -
  obtain c' m' where r: "scr_ckptdesc_get_loop cid ds 0 (None, 0) = (c', m')"
    by (cases "scr_ckptdesc_get_loop cid ds 0 (None, 0)")
  have c: "scr_ckptdesc_get cid ds = c'" by (simp add: scr_ckptdesc_get_def r)
  note ch = scr_ckptdesc_get_loop_inv[OF order_refl r]
  show ?thesis
  proof
    assume "scr_ckptdesc_get cid ds = None"
    with c have "c' = None" by simp
    with ch have "m' = 0" by auto
    with ch have "\<forall>j<length ds. applies cid (ds ! j) \<longrightarrow> interval (ds ! j) \<le> 0" by simp
    then show "\<forall>j<length ds. \<not> applies cid (ds ! j)" by (auto simp: applies_def)
  next
    assume "\<forall>j<length ds. \<not> applies cid (ds ! j)"
    with ch have "c' = None" by auto
    with c show "scr_ckptdesc_get cid ds = None" by simp
  qed
qed

lemma selected_unique: "selected cid ds i \<Longrightarrow> selected cid ds k \<Longrightarrow> i = k"
proof (rule ccontr)
  assume i: "selected cid ds i" and k: "selected cid ds k" and ne: "i \<noteq> k"
  from i k have eq: "interval (ds ! i) = interval (ds ! k)"
    unfolding selected_def by (meson order_antisym)
  from ne consider "i < k" | "k < i" by linarith
  then show False
  proof cases
    case 1
    with i k have "interval (ds ! i) < interval (ds ! k)" unfolding selected_def by blast
    with eq show False by simp
  next
    case 2
    with i k have "interval (ds ! k) < interval (ds ! i)" unfolding selected_def by blast
    with eq show False by simp
  qed
qed

lemma scr_ckptdesc_get_Some_selected:
  assumes "scr_ckptdesc_get cid ds = Some i"
  shows "selected cid ds i"
proof -
  obtain c' m' where r: "scr_ckptdesc_get_loop cid ds 0 (None, 0) = (c', m')"
    by (cases "scr_ckptdesc_get_loop cid ds 0 (None, 0)")
  have c: "c' = Some i" using assms by (simp add: scr_ckptdesc_get_def r)
  note ch = scr_ckptdesc_get_loop_inv[OF order_refl r]
  from ch c obtain j where j: "j < length ds" "c' = Some (0 + j)" "applies cid (ds ! j)"
      "interval (ds ! j) = m'" "\<forall>k<j. applies cid (ds ! k) \<longrightarrow> interval (ds ! k) < m'"
    by auto
  from j c have ij: "j = i" by simp
  from ch have "\<forall>j<length ds. applies cid (ds ! j) \<longrightarrow> interval (ds ! j) \<le> m'" by simp
  with j ij show ?thesis unfolding selected_def by simp
qed

text \<open>
  C4, as amended. For every checkpoint id and every list of descriptors,
  \<^verbatim>\<open>scr_ckptdesc_get\<close> returns the descriptor at index \<open>i\<close> exactly when that descriptor is
  enabled, has a positive interval dividing the id, no enabled descriptor with a positive
  dividing interval has a larger one, and every such descriptor earlier in the array has a
  smaller one (of two with the same interval, the earlier is selected).
\<close>

theorem scr_ckptdesc_get_selected:
  "scr_ckptdesc_get cid ds = Some i \<longleftrightarrow> selected cid ds i"
proof
  assume "scr_ckptdesc_get cid ds = Some i"
  then show "selected cid ds i" by (rule scr_ckptdesc_get_Some_selected)
next
  assume s: "selected cid ds i"
  then have "\<not> (\<forall>j<length ds. \<not> applies cid (ds ! j))" unfolding selected_def by blast
  then have "scr_ckptdesc_get cid ds \<noteq> None" by (simp add: scr_ckptdesc_get_None_iff)
  then obtain k where k: "scr_ckptdesc_get cid ds = Some k" by blast
  then have "selected cid ds k" by (rule scr_ckptdesc_get_Some_selected)
  with s have "i = k" by (rule selected_unique)
  with k show "scr_ckptdesc_get cid ds = Some i" by simp
qed

text \<open>
  The theorem at checkpoint id 6 and four enabled descriptors with the intervals 2, 3, 3
  and 2: the first of the two descriptors of interval 3 is selected.
\<close>

theorem scr_ckptdesc_get_selected_witness:
  "selected 6 [scr_ckptdesc_init\<lparr>enabled := 1, interval := 2\<rparr>,
               scr_ckptdesc_init\<lparr>enabled := 1, interval := 3\<rparr>,
               scr_ckptdesc_init\<lparr>enabled := 1, interval := 3\<rparr>,
               scr_ckptdesc_init\<lparr>enabled := 1, interval := 2\<rparr>] 1 \<and>
   scr_ckptdesc_get 6 [scr_ckptdesc_init\<lparr>enabled := 1, interval := 2\<rparr>,
               scr_ckptdesc_init\<lparr>enabled := 1, interval := 3\<rparr>,
               scr_ckptdesc_init\<lparr>enabled := 1, interval := 3\<rparr>,
               scr_ckptdesc_init\<lparr>enabled := 1, interval := 2\<rparr>] = Some 1"
  using scr_ckptdesc_get_selected[of 6 "[scr_ckptdesc_init\<lparr>enabled := 1, interval := 2\<rparr>,
               scr_ckptdesc_init\<lparr>enabled := 1, interval := 3\<rparr>,
               scr_ckptdesc_init\<lparr>enabled := 1, interval := 3\<rparr>,
               scr_ckptdesc_init\<lparr>enabled := 1, interval := 2\<rparr>]" 1]
  by (simp add: scr_ckptdesc_get_def scr_ckptdesc_init_def)

text \<open>
  C4 as stated fails on a descriptor with a negative interval: for checkpoint id 4 and the
  single enabled descriptor of interval \<open>- 2\<close>, that descriptor is enabled, its interval
  divides 4 evenly and no other descriptor competes, yet \<^verbatim>\<open>scr_ckptdesc_get\<close> returns
  \<^verbatim>\<open>NULL\<close>.
\<close>

theorem scr_ckptdesc_get_claimed_counterexample:
  "claimed_selected 4 [scr_ckptdesc_init\<lparr>enabled := 1, interval := - 2\<rparr>] 0 \<and>
   scr_ckptdesc_get 4 [scr_ckptdesc_init\<lparr>enabled := 1, interval := - 2\<rparr>] = None"
  by (simp add: claimed_selected_def claimed_applies_def scr_ckptdesc_get_def scr_ckptdesc_init_def)

section \<open>Properties: waiting for the asynchronous flush\<close>

text \<open>
  If the checkpoint of the flush is marked \<^verbatim>\<open>FLUSHING\<close>, flushing is switched on and the
  files are there, and the transfer is found complete at the test number \<open>k + 1\<close> and
  not before, the loop of \<^verbatim>\<open>scr_flush_async_wait\<close> ends after \<open>k + 1\<close> tests.
\<close>

lemma scr_flush_async_wait_loop_run:
  assumes "flush_file_flushing s (scr_flush_async_checkpoint_id s)"
    and "0 < scr_flush s" and "check_files s (scr_flush_async_checkpoint_id s)"
    and "\<forall>j<k. \<not> transfer_complete s (transfer_reads s + j)"
    and "transfer_complete s (transfer_reads s + k)"
  shows "scr_flush_async_wait_loop s = Some (waited s k)"
  using assms
proof (induction k arbitrary: s)
  case 0
  let ?a = "scr_flush_async_checkpoint_id s"
  let ?s1 = "s\<lparr>trace := trace s @ [Flush_async_test ?a], transfer_reads := transfer_reads s + 1\<rparr>"
  let ?s2 = "scr_flush_async_complete ?s1 ?a"
  from 0 have t: "scr_flush_async_test s ?a = (SCR_SUCCESS, ?s1)"
    by (simp add: scr_flush_async_test_def Let_def)
  have s2: "?s2 = waited s 0"
    using 0 by (simp add: scr_flush_async_complete_def waited_def)
  have "scr_flush_async_wait_loop s = scr_flush_async_wait_loop ?s2"
    using 0 by (subst scr_flush_async_wait_loop.simps) (simp add: t scr_bool_is_flushing_def)
  also have "\<dots> = Some ?s2"
    unfolding s2 by (subst scr_flush_async_wait_loop.simps) (simp add: waited_def scr_bool_is_flushing_def)
  finally show ?case unfolding s2 .
next
  case (Suc k)
  let ?a = "scr_flush_async_checkpoint_id s"
  let ?s1 = "s\<lparr>trace := trace s @ [Flush_async_test ?a], transfer_reads := transfer_reads s + 1\<rparr>"
  from Suc.prems have nc: "\<not> transfer_complete s (transfer_reads s)" by auto
  with Suc.prems have t: "scr_flush_async_test s ?a = (SCR_FAILURE, ?s1)"
    by (simp add: scr_flush_async_test_def Let_def)
  have step: "scr_flush_async_wait_loop s = scr_flush_async_wait_loop ?s1"
    using Suc.prems by (subst scr_flush_async_wait_loop.simps) (simp add: t scr_bool_is_flushing_def)
  have p4: "\<forall>j<k. \<not> transfer_complete ?s1 (transfer_reads ?s1 + j)"
  proof (intro allI impI)
    fix j assume "j < k"
    then have "Suc j < Suc k" by simp
    with Suc.prems(4) have "\<not> transfer_complete s (transfer_reads s + Suc j)" by blast
    then show "\<not> transfer_complete ?s1 (transfer_reads ?s1 + j)" by simp
  qed
  have "scr_flush_async_wait_loop ?s1 = Some (waited ?s1 k)"
    using Suc.prems p4 by (intro Suc.IH) simp_all
  also have "waited ?s1 k = waited s (Suc k)"
    by (simp add: waited_def replicate_append_same)
  finally show ?case using step by simp
qed


text \<open>
  If flushing is switched off, or files of the checkpoint are missing, or the transfer
  never completes, the loop does not end.
\<close>

lemma scr_flush_async_wait_loop_stuck:
  assumes "scr_flush_async_wait_loop s = Some y"
  shows "\<not> (flush_file_flushing s (scr_flush_async_checkpoint_id s) \<and>
            (scr_flush s \<le> 0 \<or> \<not> check_files s (scr_flush_async_checkpoint_id s) \<or>
             (\<forall>n\<ge>transfer_reads s. \<not> transfer_complete s n)))"
proof -
  let ?Q = "\<lambda>s. flush_file_flushing s (scr_flush_async_checkpoint_id s) \<and>
            (scr_flush s \<le> 0 \<or> \<not> check_files s (scr_flush_async_checkpoint_id s) \<or>
             (\<forall>n\<ge>transfer_reads s. \<not> transfer_complete s n))"
  from assms show "\<not> ?Q s"
  proof (rule scr_flush_async_wait_loop.raw_induct[rotated 1, where P = "\<lambda>s y. \<not> ?Q s"])
    fix loop :: "scr_state \<Rightarrow> scr_state option" and s y
    assume ih: "\<And>x y. loop x = Some y \<Longrightarrow> \<not> ?Q x"
      and body: "(if scr_bool_is_flushing s (scr_flush_async_checkpoint_id s) \<noteq> 0
         then let r = scr_flush_async_test s (scr_flush_async_checkpoint_id s)
              in if fst r = SCR_SUCCESS
                 then loop (scr_flush_async_complete (snd r) (scr_flush_async_checkpoint_id (snd r)))
                 else loop (snd r)
         else Some s) = Some y"
    let ?a = "scr_flush_async_checkpoint_id s"
    show "\<not> ?Q s"
    proof
      assume q: "?Q s"
      let ?s1 = "snd (scr_flush_async_test s ?a)"
      from q have f: "fst (scr_flush_async_test s ?a) = SCR_FAILURE"
        by (auto simp: scr_flush_async_test_def Let_def)
      from q have q1: "?Q ?s1"
        by (auto simp: scr_flush_async_test_def Let_def)
      from body q f have "loop ?s1 = Some y"
        by (simp add: scr_bool_is_flushing_def Let_def)
      from ih[OF this] q1 show False by blast
    qed
  qed
qed

lemma ex_first_complete:
  assumes "\<exists>n\<ge>r. (P::nat \<Rightarrow> bool) n"
  shows "\<exists>k. (\<forall>j<k. \<not> P (r + j)) \<and> P (r + k)"
proof -
  from assms obtain n where n: "r \<le> n" "P n" by blast
  then have "P (r + (n - r))" by simp
  then have ex: "\<exists>k. P (r + k)" by blast
  let ?k = "LEAST k. P (r + k)"
  have "P (r + ?k)" using ex by (rule LeastI_ex)
  moreover have "\<not> P (r + j)" if "j < ?k" for j using that by (rule not_less_Least)
  ultimately show ?thesis by blast
qed

text \<open>
  \<^verbatim>\<open>scr_flush_async_wait\<close> in closed form: it returns at once when no flush is in progress
  or the checkpoint of the flush is not marked; it returns after the first test that finds
  the transfer complete; otherwise it does not return.
\<close>

lemma scr_flush_async_wait_cases:
  "scr_flush_async_wait s =
     (if scr_flush_async_in_progress s = 0 \<or> \<not> flush_file_flushing s (scr_flush_async_checkpoint_id s)
      then Some s
      else if 0 < scr_flush s \<and> check_files s (scr_flush_async_checkpoint_id s) \<and>
              (\<exists>n\<ge>transfer_reads s. transfer_complete s n)
      then Some (waited s (LEAST k. transfer_complete s (transfer_reads s + k)))
      else None)"
proof -
  let ?a = "scr_flush_async_checkpoint_id s"
  consider (idle) "scr_flush_async_in_progress s = 0"
    | (unmarked) "scr_flush_async_in_progress s \<noteq> 0" "\<not> flush_file_flushing s ?a"
    | (runs) "scr_flush_async_in_progress s \<noteq> 0" "flush_file_flushing s ?a"
        "0 < scr_flush s \<and> check_files s ?a \<and> (\<exists>n\<ge>transfer_reads s. transfer_complete s n)"
    | (stuck) "scr_flush_async_in_progress s \<noteq> 0" "flush_file_flushing s ?a"
        "\<not> (0 < scr_flush s \<and> check_files s ?a \<and> (\<exists>n\<ge>transfer_reads s. transfer_complete s n))"
    by blast
  then show ?thesis
  proof cases
    case idle
    then show ?thesis by (simp add: scr_flush_async_wait_def)
  next
    case unmarked
    then have "scr_flush_async_wait_loop s = Some s"
      by (subst scr_flush_async_wait_loop.simps) (simp add: scr_bool_is_flushing_def)
    with unmarked show ?thesis by (simp add: scr_flush_async_wait_def)
  next
    case runs
    let ?k = "LEAST k. transfer_complete s (transfer_reads s + k)"
    from runs(3) have "\<exists>n\<ge>transfer_reads s. transfer_complete s n" by blast
    then have "\<exists>k. transfer_complete s (transfer_reads s + k)"
      using ex_first_complete[of "transfer_reads s" "transfer_complete s"] by blast
    then have k: "transfer_complete s (transfer_reads s + ?k)" by (rule LeastI_ex)
    have nk: "\<forall>j<?k. \<not> transfer_complete s (transfer_reads s + j)"
      using not_less_Least by blast
    from runs have "scr_flush_async_wait_loop s = Some (waited s ?k)"
      using nk k by (intro scr_flush_async_wait_loop_run) simp_all
    with runs show ?thesis by (simp add: scr_flush_async_wait_def)
  next
    case stuck
    have "scr_flush_async_wait_loop s = None"
    proof (cases "scr_flush_async_wait_loop s")
      case None
      then show ?thesis .
    next
      case (Some y)
      from scr_flush_async_wait_loop_stuck[OF this] stuck show ?thesis by auto
    qed
    with stuck show ?thesis by (simp add: scr_flush_async_wait_def)
  qed
qed

lemma scr_flush_async_wait_in_checkpoint:
  assumes "scr_flush_async_wait s = Some w"
  shows "scr_in_checkpoint w = scr_in_checkpoint s"
  using assms unfolding scr_flush_async_wait_cases
  by (auto simp: waited_def split: if_splits)

section \<open>Properties: the entry points\<close>

text \<open>
  C10. When no enabled descriptor has an interval that divides the checkpoint id evenly
  (for one, when every descriptor is disabled), \<^verbatim>\<open>scr_ckptdesc_get\<close> returns \<^verbatim>\<open>NULL\<close>; and
  \<^verbatim>\<open>SCR_Start_checkpoint\<close>, called on an enabled and initialized library outside a
  checkpoint with such descriptors for the id it moves to, reads through the \<^verbatim>\<open>NULL\<close>
  pointer.
\<close>

theorem scr_ckptdesc_get_NULL_start_faults:
  assumes "\<forall>d\<in>set ds. enabled d \<noteq> 0 \<longrightarrow> \<not> interval d dvd cid"
  shows "scr_ckptdesc_get cid ds = None \<and>
         (scr_enabled s \<noteq> 0 \<and> scr_initialized s \<noteq> 0 \<and> scr_in_checkpoint s = 0 \<and>
          scr_ckptdescs s = ds \<and> scr_checkpoint_id s + 1 = cid \<longrightarrow>
          SCR_Start_checkpoint u s = Some Fault)"
proof -
  have "\<forall>j<length ds. \<not> applies cid (ds ! j)"
    using assms by (auto simp: applies_def)
  then have n: "scr_ckptdesc_get cid ds = None" by (simp add: scr_ckptdesc_get_None_iff)
  then show ?thesis by (auto simp: SCR_Start_checkpoint_def Let_def)
qed

text \<open>
  The theorem on the example process with its one descriptor disabled.
\<close>

theorem scr_ckptdesc_get_NULL_start_faults_witness:
  "scr_ckptdesc_get 3 [example_desc\<lparr>enabled := 0\<rparr>] = None \<and>
   SCR_Start_checkpoint example_util (example_state\<lparr>scr_ckptdescs := [example_desc\<lparr>enabled := 0\<rparr>]\<rparr>) = Some Fault"
  using scr_ckptdesc_get_NULL_start_faults[of "[example_desc\<lparr>enabled := 0\<rparr>]" 3
      "example_state\<lparr>scr_ckptdescs := [example_desc\<lparr>enabled := 0\<rparr>]\<rparr>" example_util]
  by (simp add: example_state_def)

text \<open>
  \<^verbatim>\<open>scr_in_checkpoint\<close> is written by the two entry points only.
\<close>

lemma scr_checkpoint_delete_in_checkpoint:
  "scr_in_checkpoint (scr_checkpoint_delete s ck) = scr_in_checkpoint s"
  by (simp add: scr_checkpoint_delete_def)

lemma evict_loop_in_checkpoint:
  "evict_loop cbase sz cks s nb fl = Return (s', nb', fl') \<Longrightarrow>
     scr_in_checkpoint s' = scr_in_checkpoint s"
proof (induction cks arbitrary: s nb fl)
  case Nil
  then show ?case by simp
next
  case (Cons ck cks)
  show ?case
  proof (cases "sz \<le> nb")
    case False
    with Cons.prems show ?thesis by simp
  next
    case True
    with Cons.prems consider
        (same) nb2 fl2 where "evict_loop cbase sz cks s nb2 fl2 = Return (s', nb', fl')"
      | (del) nb2 fl2 where
          "evict_loop cbase sz cks (scr_checkpoint_delete s ck) nb2 fl2 = Return (s', nb', fl')"
      by (auto split: option.splits if_splits)
    then show ?thesis
    proof cases
      case same
      then show ?thesis by (rule Cons.IH)
    next
      case del
      then have "scr_in_checkpoint s' = scr_in_checkpoint (scr_checkpoint_delete s ck)"
        by (rule Cons.IH)
      then show ?thesis by (simp add: scr_checkpoint_delete_in_checkpoint)
    qed
  qed
qed

lemma start_make_room_in_checkpoint:
  assumes "start_make_room cbase s = Some (Return s')"
  shows "scr_in_checkpoint s' = scr_in_checkpoint s"
proof -
  from assms obtain sz nb a nb' fl where
    e: "evict_loop cbase sz (scr_filemap_list_checkpoints (scr_map s)) s nb (- 1) = Return (a, nb', fl)"
    and s': "s' = a \<or> (\<exists>w. scr_flush_async_wait a = Some w \<and> s' = scr_checkpoint_delete w fl)"
    by (auto simp: start_make_room_def Let_def split: outcome.splits if_splits option.splits)
  have "scr_in_checkpoint a = scr_in_checkpoint s" by (rule evict_loop_in_checkpoint[OF e])
  with s' show ?thesis
    by (auto simp: scr_checkpoint_delete_in_checkpoint dest: scr_flush_async_wait_in_checkpoint)
qed

text \<open>
  After a call of \<^verbatim>\<open>SCR_Start_checkpoint\<close> that returned \<^verbatim>\<open>SCR_SUCCESS\<close> the flag
  \<^verbatim>\<open>scr_in_checkpoint\<close> is set, so the next call of it is rejected.
\<close>

lemma SCR_Start_checkpoint_sets_flag:
  assumes "SCR_Start_checkpoint u s = Some (Return (SCR_SUCCESS, s'))"
  shows "scr_in_checkpoint s' = 1"
proof -
  let ?s1 = "s\<lparr>scr_in_checkpoint := 1, scr_checkpoint_id := scr_checkpoint_id s + 1\<rparr>"
  from assms obtain cbase s2 where
    m: "start_make_room cbase ?s1 = Some (Return s2)"
    and f: "scr_in_checkpoint s' = scr_in_checkpoint s2"
    by (auto simp: SCR_Start_checkpoint_def Let_def scr_checkpoint_dir_create_def
             split: if_splits option.splits outcome.splits)
  from start_make_room_in_checkpoint[OF m] f show ?thesis by simp
qed

text \<open>
  \<^verbatim>\<open>SCR_Start_checkpoint\<close> as a whole on the example process: checkpoint 2 is deleted,
  the flush of checkpoint 1 is tested twice and completed, checkpoint 1 is deleted, the
  directory of checkpoint 3 is created, and the filemap holds checkpoint 3 only.
\<close>

lemma SCR_Start_checkpoint_example:
  "\<exists>s'. SCR_Start_checkpoint example_util example_state = Some (Return (SCR_SUCCESS, s')) \<and>
     trace s' = [Checkpoint_delete 2, Flush_async_test 1, Flush_async_test 1,
                 Flush_async_complete 1, Checkpoint_delete 1,
                 Mkdir ''/ram/u/scr.7/index.0/checkpoint.3''] \<and>
     scr_filemap_list_checkpoints (scr_map s') = [3] \<and> scr_in_checkpoint s' = 1 \<and>
     scr_checkpoint_id s' = 3 \<and> scr_enabled s' = 1"
proof -
  have "case SCR_Start_checkpoint example_util example_state of
          Some (Return (rc, s')) \<Rightarrow>
            rc = SCR_SUCCESS \<and>
            trace s' = [Checkpoint_delete 2, Flush_async_test 1, Flush_async_test 1,
                        Flush_async_complete 1, Checkpoint_delete 1,
                        Mkdir ''/ram/u/scr.7/index.0/checkpoint.3''] \<and>
            scr_filemap_list_checkpoints (scr_map s') = [3] \<and> scr_in_checkpoint s' = 1 \<and>
            scr_checkpoint_id s' = 3 \<and> scr_enabled s' = 1
        | _ \<Rightarrow> False"
    by code_simp
  then show ?thesis by (auto split: option.splits outcome.splits)
qed

text \<open>
  C8. \<^verbatim>\<open>SCR_Complete_checkpoint\<close> called while no checkpoint is in progress is rejected
  (the library aborts the job, or returns \<^verbatim>\<open>SCR_FAILURE\<close> when it is disabled) whatever
  the work of a checkpoint would have been, and none of it is run; so is a second call
  after one that returned, with no \<^verbatim>\<open>SCR_Start_checkpoint\<close> in between. In the same way
  \<^verbatim>\<open>SCR_Start_checkpoint\<close> called while a checkpoint is in progress is rejected, and so is
  a second call after one that succeeded.
\<close>

theorem complete_and_start_rejected:
  "(scr_in_checkpoint s1 = 0 \<longrightarrow>
      rejected (SCR_Complete_checkpoint work s1 valid) s1 \<and>
      SCR_Complete_checkpoint work s1 valid = SCR_Complete_checkpoint (\<lambda>v t. Some Fault) s1 valid) \<and>
   (SCR_Complete_checkpoint work s2 valid = Some (Return (rc, s2')) \<longrightarrow>
      rejected (SCR_Complete_checkpoint work' s2' valid') s2') \<and>
   (scr_in_checkpoint s3 \<noteq> 0 \<longrightarrow> rejected (SCR_Start_checkpoint u s3) s3) \<and>
   (SCR_Start_checkpoint u s4 = Some (Return (SCR_SUCCESS, s4')) \<longrightarrow>
      rejected (SCR_Start_checkpoint u' s4') s4')"
proof (intro conjI impI)
  assume "scr_in_checkpoint s1 = 0"
  then show "rejected (SCR_Complete_checkpoint work s1 valid) s1"
    by (simp add: SCR_Complete_checkpoint_def rejected_def)
next
  assume "scr_in_checkpoint s1 = 0"
  then show "SCR_Complete_checkpoint work s1 valid = SCR_Complete_checkpoint (\<lambda>v t. Some Fault) s1 valid"
    by (simp add: SCR_Complete_checkpoint_def)
next
  assume r: "SCR_Complete_checkpoint work s2 valid = Some (Return (rc, s2'))"
  have "scr_enabled s2' = 0 \<or> scr_in_checkpoint s2' = 0"
    using r by (auto simp: SCR_Complete_checkpoint_def split: if_splits outcome.splits option.splits)
  then show "rejected (SCR_Complete_checkpoint work' s2' valid') s2'"
    by (auto simp: SCR_Complete_checkpoint_def rejected_def)
next
  assume "scr_in_checkpoint s3 \<noteq> 0"
  then show "rejected (SCR_Start_checkpoint u s3) s3"
    by (simp add: SCR_Start_checkpoint_def rejected_def)
next
  assume "SCR_Start_checkpoint u s4 = Some (Return (SCR_SUCCESS, s4'))"
  then have "scr_in_checkpoint s4' = 1" by (rule SCR_Start_checkpoint_sets_flag)
  then show "rejected (SCR_Start_checkpoint u' s4') s4'"
    by (simp add: SCR_Start_checkpoint_def rejected_def)
qed

text \<open>
  The theorem on the example process: \<^verbatim>\<open>SCR_Complete_checkpoint\<close> outside a checkpoint
  aborts; in a checkpoint it returns, and the next call aborts; \<^verbatim>\<open>SCR_Start_checkpoint\<close>
  in a checkpoint aborts, and so does a second call after the first succeeded.
\<close>

theorem complete_and_start_rejected_witness:
  "scr_in_checkpoint example_state = 0 \<and>
   SCR_Complete_checkpoint (\<lambda>v t. Some (Return (SCR_SUCCESS, t))) example_state 1 = Some Abort \<and>
   SCR_Complete_checkpoint (\<lambda>v t. Some (Return (SCR_SUCCESS, t))) (example_state\<lparr>scr_in_checkpoint := 1\<rparr>) 1
     = Some (Return (SCR_SUCCESS, example_state)) \<and>
   rejected (SCR_Complete_checkpoint (\<lambda>v t. Some (Return (SCR_SUCCESS, t))) example_state 1) example_state \<and>
   scr_in_checkpoint (example_state\<lparr>scr_in_checkpoint := 1\<rparr>) \<noteq> 0 \<and>
   rejected (SCR_Start_checkpoint example_util (example_state\<lparr>scr_in_checkpoint := 1\<rparr>))
     (example_state\<lparr>scr_in_checkpoint := 1\<rparr>) \<and>
   (\<exists>s'. SCR_Start_checkpoint example_util example_state = Some (Return (SCR_SUCCESS, s')) \<and>
         SCR_Start_checkpoint example_util s' = Some Abort)"
proof -
  from SCR_Start_checkpoint_example obtain s' where
    s': "SCR_Start_checkpoint example_util example_state = Some (Return (SCR_SUCCESS, s'))"
    and e: "scr_enabled s' = 1" "scr_in_checkpoint s' = 1"
    by blast
  have a: "scr_in_checkpoint example_state = 0 \<and>
   SCR_Complete_checkpoint (\<lambda>v t. Some (Return (SCR_SUCCESS, t))) example_state 1 = Some Abort \<and>
   SCR_Complete_checkpoint (\<lambda>v t. Some (Return (SCR_SUCCESS, t))) (example_state\<lparr>scr_in_checkpoint := 1\<rparr>) 1
     = Some (Return (SCR_SUCCESS, example_state)) \<and>
   rejected (SCR_Complete_checkpoint (\<lambda>v t. Some (Return (SCR_SUCCESS, t))) example_state 1) example_state \<and>
   scr_in_checkpoint (example_state\<lparr>scr_in_checkpoint := 1\<rparr>) \<noteq> 0 \<and>
   rejected (SCR_Start_checkpoint example_util (example_state\<lparr>scr_in_checkpoint := 1\<rparr>))
     (example_state\<lparr>scr_in_checkpoint := 1\<rparr>) \<and>
   rejected (SCR_Start_checkpoint example_util s') s'"
    using complete_and_start_rejected[of example_state "\<lambda>v t. Some (Return (SCR_SUCCESS, t))" 1
      "example_state\<lparr>scr_in_checkpoint := 1\<rparr>" SCR_SUCCESS example_state
      "\<lambda>v t. Some (Return (SCR_SUCCESS, t))" 1 "example_state\<lparr>scr_in_checkpoint := 1\<rparr>" example_util
      example_state s' example_util] s'
    by (simp add: example_state_def SCR_Complete_checkpoint_def)
  have "SCR_Start_checkpoint example_util s' = Some Abort"
    using e by (simp add: SCR_Start_checkpoint_def)
  with a s' show ?thesis by blast
qed

lemma map_of_scr_filemap_put: "map_of (scr_filemap_put m ckpt rank e) (ckpt, rank) = Some e"
proof (cases "map_of m (ckpt, rank)")
  case None
  then show ?thesis by (simp add: scr_filemap_put_def map_add_def)
next
  case (Some e0)
  have "map_of m k \<noteq> None \<Longrightarrow> map_of (map (\<lambda>kv. if fst kv = k then (fst kv, e) else kv) m) k = Some e" for k
    by (induction m) auto
  with Some show ?thesis by (simp add: scr_filemap_put_def)
qed

lemma scr_filemap_add_file_mem:
  "file \<in> set (scr_filemap_files (scr_filemap_add_file m ckpt rank file) ckpt rank)"
  by (simp add: scr_filemap_files_def scr_filemap_add_file_def Let_def map_of_scr_filemap_put)

text \<open>
  C9. \<^verbatim>\<open>SCR_Route_file\<close> on an enabled and initialized library, for a file that
  \<^verbatim>\<open>scr_route_file\<close> routes to the path \<open>newfile\<close>. Outside a checkpoint the call leaves
  the state, and so the filemap, as it was, and returns \<^verbatim>\<open>SCR_FAILURE\<close> exactly when the
  routed file is not readable, \<^verbatim>\<open>SCR_SUCCESS\<close> otherwise. In a checkpoint it returns
  \<^verbatim>\<open>SCR_SUCCESS\<close> in a state where the routed path is among the files of the filemap for
  the current checkpoint id and the world rank of the process, and the filemap on disk is
  the filemap in memory; nothing else of the state changes.
\<close>

theorem SCR_Route_file_cases:
  assumes "scr_enabled s \<noteq> 0" and "scr_initialized s \<noteq> 0"
    and "scr_route_file u s (scr_checkpoint_id s) file newfile_null (SCR_MAX_FILENAME u)
           = Return (SCR_SUCCESS, newfile)"
  shows "\<exists>rc s'. SCR_Route_file u s file newfile_null = Return (rc, s', newfile) \<and>
     (if scr_in_checkpoint s = 0
      then s' = s \<and> (rc = SCR_FAILURE \<longleftrightarrow> \<not> access_R_OK s newfile) \<and>
           (rc = SCR_SUCCESS \<longleftrightarrow> access_R_OK s newfile)
      else rc = SCR_SUCCESS \<and>
           newfile \<in> set (scr_filemap_files (scr_map s') (scr_checkpoint_id s) (scr_my_rank_world s)) \<and>
           scr_map_file s' = scr_map s' \<and>
           scr_map s' = scr_filemap_add_file (scr_map s) (scr_checkpoint_id s)
                          (scr_my_rank_world s) newfile \<and>
           s' = s\<lparr>scr_map := scr_map s', scr_map_file := scr_map s'\<rparr>)"
proof (cases "scr_in_checkpoint s = 0")
  case True
  with assms show ?thesis by (simp add: SCR_Route_file_def)
next
  case False
  with assms show ?thesis
    by (simp add: SCR_Route_file_def Let_def scr_filemap_add_file_mem)
qed

text \<open>
  The theorem on the example process: outside a checkpoint a readable routed file gives
  \<^verbatim>\<open>SCR_SUCCESS\<close> and the same state; in a checkpoint the routed path joins the files of
  checkpoint 2 and rank 0.
\<close>

theorem SCR_Route_file_cases_witness:
  "SCR_Route_file example_util example_state (Some ''b'') False
     = Return (SCR_SUCCESS, example_state, ''/ram/u/scr.7/index.0/checkpoint.2/b'') \<and>
   (\<exists>s'. SCR_Route_file example_util (example_state\<lparr>scr_in_checkpoint := 1\<rparr>) (Some ''c'') False
     = Return (SCR_SUCCESS, s', ''/ram/u/scr.7/index.0/checkpoint.2/c'') \<and>
     scr_filemap_files (scr_map s') 2 0 = [''b'', ''/ram/u/scr.7/index.0/checkpoint.2/c''] \<and>
     scr_map_file s' = scr_map s')"
proof -
  have e: "scr_enabled example_state \<noteq> 0" "scr_initialized example_state \<noteq> 0"
    "scr_checkpoint_id example_state = 2" "SCR_MAX_FILENAME example_util = 1024"
    "scr_in_checkpoint example_state = 0"
    "access_R_OK example_state ''/ram/u/scr.7/index.0/checkpoint.2/b''"
    by (simp_all add: example_state_def example_util_def)
  have r1: "scr_route_file example_util example_state 2 (Some ''b'') False 1024
      = Return (SCR_SUCCESS, ''/ram/u/scr.7/index.0/checkpoint.2/b'')"
    by (simp add: scr_route_file_def example_util_def example_state_def example_desc_def
        scr_ckptdesc_init_def scr_ckptdesc_get_def scr_checkpoint_dir_def smod_int_alt_def)
  have r2: "scr_route_file example_util (example_state\<lparr>scr_in_checkpoint := 1\<rparr>) 2 (Some ''c'') False 1024
      = Return (SCR_SUCCESS, ''/ram/u/scr.7/index.0/checkpoint.2/c'')"
    by (simp add: scr_route_file_def example_util_def example_state_def example_desc_def
        scr_ckptdesc_init_def scr_ckptdesc_get_def scr_checkpoint_dir_def smod_int_alt_def)
  have a: "SCR_Route_file example_util example_state (Some ''b'') False
     = Return (SCR_SUCCESS, example_state, ''/ram/u/scr.7/index.0/checkpoint.2/b'')"
    using SCR_Route_file_cases[of example_state example_util "Some ''b''" False
        "''/ram/u/scr.7/index.0/checkpoint.2/b''"] e r1
    by (auto simp del: One_nat_def)
  have b: "\<exists>s'. SCR_Route_file example_util (example_state\<lparr>scr_in_checkpoint := 1\<rparr>) (Some ''c'') False
     = Return (SCR_SUCCESS, s', ''/ram/u/scr.7/index.0/checkpoint.2/c'') \<and>
     scr_filemap_files (scr_map s') 2 0 = [''b'', ''/ram/u/scr.7/index.0/checkpoint.2/c''] \<and>
     scr_map_file s' = scr_map s'"
    using r2 e
    by (simp add: SCR_Route_file_def Let_def scr_filemap_add_file_def scr_filemap_put_def
        scr_filemap_entry_def scr_filemap_files_def example_state_def)
  from a b show ?thesis by simp
qed

text \<open>
  Whatever the file, outside a checkpoint \<^verbatim>\<open>SCR_Route_file\<close> leaves the state as it is,
  and in a checkpoint it returns \<^verbatim>\<open>SCR_SUCCESS\<close> only with the routed path in the filemap
  and the filemap written.
\<close>

lemma SCR_Route_file_returns:
  assumes "SCR_Route_file u s file newfile_null = Return (rc, s', newfile)"
  shows "(scr_in_checkpoint s = 0 \<longrightarrow> s' = s) \<and>
         (scr_in_checkpoint s \<noteq> 0 \<and> rc = SCR_SUCCESS \<longrightarrow>
            newfile \<in> set (scr_filemap_files (scr_map s') (scr_checkpoint_id s) (scr_my_rank_world s)) \<and>
            scr_map_file s' = scr_map s')"
  using assms
  by (auto simp: SCR_Route_file_def Let_def scr_filemap_add_file_mem
           split: if_splits outcome.splits)

section \<open>Properties: making room in the cache\<close>




lemma scr_cachedesc_size_Some: "\<exists>sz. scr_cachedesc_size cds (Some cb) = Return sz"
  by (induction cds) (auto split: option.splits)























section \<open>Properties: the usable-file predicate\<close>

lemma scr_bool_have_file_range: "scr_bool_have_file fs ckpt rank file ranks' \<in> {0, 1}"
  by (simp add: scr_bool_have_file_def split: option.splits)

text \<open>
  C3, as amended. \<^verbatim>\<open>scr_bool_have_file\<close> returns true (1, and otherwise 0) exactly when
  a file name is given and is not empty, the file is readable, its sidecar can be read, the
  \<^verbatim>\<open>complete\<close> flag of the sidecar is true, its checkpoint id, rank and number of ranks are
  the ones passed to the function, and its \<^verbatim>\<open>filesize\<close> is the measured size of the file.
  The \<^verbatim>\<open>filename\<close> and \<^verbatim>\<open>filetype\<close> of the sidecar play no part.
\<close>

theorem scr_bool_have_file_iff:
  "scr_bool_have_file fs ckpt rank file ranks' = 1 \<longleftrightarrow>
     (\<exists>f. file = Some f \<and> checked_usable fs ckpt rank f ranks')"
  by (cases "file")
     (auto simp: scr_bool_have_file_def checked_usable_def scr_meta_is_complete_def
           split: option.splits if_splits)

text \<open>
  The theorem on the example file system, for the file \<^verbatim>\<open>rank_0.ckpt\<close> of checkpoint 1 and
  rank 0 of 4.
\<close>

theorem scr_bool_have_file_iff_witness:
  "checked_usable example_fs 1 0 ''rank_0.ckpt'' 4 \<and>
   scr_bool_have_file example_fs 1 0 (Some ''rank_0.ckpt'') 4 = 1"
  using scr_bool_have_file_iff[of example_fs 1 0 "Some ''rank_0.ckpt''" 4]
  by (simp add: checked_usable_def example_fs_def)

text \<open>
  C3 as stated fails: on the example file system \<^verbatim>\<open>scr_bool_have_file\<close> returns true for
  \<^verbatim>\<open>rank_0.ckpt\<close>, although the sidecar names the file \<^verbatim>\<open>other.ckpt\<close> and gives the type
  \<^verbatim>\<open>XOR\<close> where the runtime expects the file \<^verbatim>\<open>rank_0.ckpt\<close> of type \<^verbatim>\<open>FULL\<close>.
\<close>

theorem scr_bool_have_file_counterexample:
  "scr_bool_have_file example_fs 1 0 (Some ''rank_0.ckpt'') 4 = 1 \<and>
   \<not> spec_present_and_usable example_fs 1 0 ''rank_0.ckpt'' 4 ''rank_0.ckpt'' ''FULL''"
  by (simp add: scr_bool_have_file_def spec_present_and_usable_def example_fs_def
      scr_meta_is_complete_def)

section \<open>Properties: the chunk size of the XOR encoder\<close>

lemma allreduce_max_eq_Max: "xs \<noteq> [] \<Longrightarrow> allreduce_max xs = Max (set xs)"
proof (cases xs)
  case Nil
  assume "xs \<noteq> []"
  with Nil show ?thesis by simp
next
  case (Cons a list)
  have "Max (set (a # list)) = fold max list a" by (rule Max.set_eq_fold)
  with Cons show ?thesis by (simp add: allreduce_max_def)
qed

lemma unat_Max:
  fixes S :: "64 word set"
  assumes "finite S" "S \<noteq> {}"
  shows "unat (Max S) = Max (unat ` S)"
  by (rule mono_Max_commute[OF _ assms]) (simp add: mono_def word_le_nat_alt)

lemma ceil_div_nat:
  fixes M n :: nat
  assumes "0 < n"
  shows "(M + n - 1) div n = (if M mod n = 0 then M div n else M div n + 1)"
proof -
  define q r where "q = M div n" and "r = M mod n"
  have M: "M = n * q + r" and r: "r < n" using assms by (simp_all add: q_def r_def)
  show ?thesis
  proof (cases "r = 0")
    case True
    have "(M + n - 1) div n = q"
    proof (rule div_nat_eqI)
      show "n * q \<le> M + n - 1" using M True assms by simp
      show "M + n - 1 < n * Suc q" using M True assms by simp
    qed
    with True show ?thesis by (simp add: q_def r_def)
  next
    case False
    have "(M + n - 1) div n = Suc q"
    proof (rule div_nat_eqI)
      show "n * Suc q \<le> M + n - 1" using M False by simp
      show "M + n - 1 < n * Suc (Suc q)" using M r by simp
    qed
    with False show ?thesis by (simp add: q_def r_def)
  qed
qed

lemma nat_ceiling_div:
  assumes "0 < n"
  shows "nat \<lceil>real M / real n\<rceil> = (M + n - 1) div n"
proof -
  have "\<lceil>real M / real n\<rceil> = \<lceil>of_int (int M) / of_int (int n) :: real\<rceil>" by simp
  also have "\<dots> = - (- int M div int n)" by (rule ceiling_divide_eq_div)
  finally have c: "\<lceil>real M / real n\<rceil> = - (- int M div int n)" .
  have n0: "int n \<noteq> 0" using assms by simp
  have "- (- int M div int n) = (if int M mod int n = 0 then int M div int n else int M div int n + 1)"
    by (simp add: zdiv_zminus1_eq_if[OF n0])
  also have "\<dots> = int (if M mod n = 0 then M div n else M div n + 1)"
  proof -
    have "int M mod int n = int (M mod n)" "int M div int n = int (M div n)"
      by (simp_all add: zmod_int zdiv_int)
    then show ?thesis by simp
  qed
  also have "\<dots> = int ((M + n - 1) div n)"
    by (simp only: ceil_div_nat[OF assms])
  finally have "- (- int M div int n) = int ((M + n - 1) div n)" .
  with c have "\<lceil>real M / real n\<rceil> = int ((M + n - 1) div n)" by (simp only:)
  then show ?thesis by (simp only: nat_int)
qed


lemma unat_word_of_int_64:
  "0 \<le> k \<Longrightarrow> k < 2 ^ 64 \<Longrightarrow> unat (word_of_int k :: 64 word) = nat k"
  by (simp add: unsigned_of_int take_bit_int_eq_self)

text \<open>
  C2. In the XOR encoder, for a group of at least two members (the size a C \<^verbatim>\<open>int\<close>) and
  any byte totals of the members, the chunk size stored in the header is the ceiling of
  \<open>max_bytes / (group_size - 1)\<close>, where \<open>max_bytes\<close> is the largest byte total of the
  members, and 1 when that ceiling is 0.
\<close>

theorem scr_copy_xor_chunk_size_ceiling:
  assumes r2: "2 \<le> ranks c" and rmax: "ranks c < 2 ^ 31" and ne: "my_bytes \<noteq> []"
  shows "\<exists>chunk_size. scr_copy_xor_chunk_size c my_bytes = Some chunk_size \<and>
           unat chunk_size =
             max 1 (nat \<lceil>real (Max (unat ` set my_bytes)) / real_of_int (ranks c - 1)\<rceil>)"
proof -
  define n where "n = nat (ranks c - 1)"
  define mb where "mb = allreduce_max my_bytes"
  define M where "M = unat mb"
  define dv where "dv = (word_of_int (ranks c - 1) :: 64 word)"
  have n1: "1 \<le> n" using r2 by (simp add: n_def)
  have "ranks c - 1 < 2 ^ 64" using rmax by simp
  then have udv: "unat dv = n"
    unfolding dv_def n_def using r2 by (intro unat_word_of_int_64) simp_all
  have dv0: "dv \<noteq> 0" using udv n1 by (auto simp: unat_eq_zero)
  have Mmax: "M = Max (unat ` set my_bytes)"
    unfolding M_def mb_def using ne by (simp add: allreduce_max_eq_Max unat_Max)
  have Mlt: "M < 2 ^ 64" unfolding M_def using unsigned_less[of mb, where ?'a = nat] by simp
  define q where "q = mb div dv"
  have uq: "unat q = M div n" by (simp add: q_def unat_div udv M_def)
  have le: "n * (M div n) \<le> M" by simp
  have prod: "unat (dv * q) = n * (M div n)"
  proof -
    from le Mlt have "n * (M div n) < 2 ^ 64" by (rule le_less_trans)
    then have "unat dv * unat q < 2 ^ LENGTH(64)" by (simp only: udv uq) simp
    then have "unat (dv * q) = unat dv * unat q" by (simp only: unat_mult_lem)
    then show ?thesis by (simp add: udv uq)
  qed
  have test: "dv * q < mb \<longleftrightarrow> M mod n \<noteq> 0"
  proof -
    have "dv * q < mb \<longleftrightarrow> n * (M div n) < M" by (simp add: word_less_nat_alt prod M_def)
    also have "\<dots> \<longleftrightarrow> M mod n \<noteq> 0"
    proof -
      have "M = n * (M div n) + M mod n" by simp
      then show ?thesis by linarith
    qed
    finally show ?thesis .
  qed
  define cs1 where "cs1 = (if dv * q < mb then q + 1 else q)"
  have "0 < n" using n1 by simp
  then have cd: "(M + n - 1) div n = (if M mod n = 0 then M div n else M div n + 1)"
    by (rule ceil_div_nat)
  have ucs1: "unat cs1 = (M + n - 1) div n"
  proof (cases "M mod n = 0")
    case True
    then have "cs1 = q" by (simp add: cs1_def test)
    then show ?thesis unfolding cd using True by (simp add: uq)
  next
    case False
    then have c: "cs1 = q + 1" by (simp add: cs1_def test)
    have "n * (M div n) < M"
    proof -
      have "M = n * (M div n) + M mod n" by simp
      with False show ?thesis by linarith
    qed
    moreover have "M div n \<le> n * (M div n)" using n1 by simp
    ultimately have "M div n + 1 \<le> M" by linarith
    with Mlt have "M div n + 1 < 2 ^ 64" by linarith
    then have "unat q + unat (1 :: 64 word) < 2 ^ LENGTH(64)" by (simp only: uq unat_1) simp
    then have "unat (q + 1) = unat q + unat (1 :: 64 word)" by (simp only: unat_add_lem)
    then show ?thesis unfolding cd using False c by (simp add: uq)
  qed
  define cs2 where "cs2 = (if cs1 = 0 then cs1 + 1 else cs1)"
  have ucs2: "unat cs2 = max 1 (unat cs1)"
  proof (cases "cs1 = 0")
    case True
    then show ?thesis by (simp add: cs2_def)
  next
    case False
    then have "unat cs1 \<noteq> 0" by (simp add: unat_eq_zero)
    with False show ?thesis by (simp add: cs2_def)
  qed
  have res: "scr_copy_xor_chunk_size c my_bytes = Some cs2"
    unfolding scr_copy_xor_chunk_size_def Let_def
      dv_def[symmetric] mb_def[symmetric] q_def[symmetric] cs1_def[symmetric] cs2_def[symmetric]
    using dv0 by (simp only: if_False)
  have rn: "real_of_int (ranks c - 1) = real n" using r2 by (simp add: n_def)
  have "0 < n" using n1 by simp
  then have "nat \<lceil>real M / real n\<rceil> = (M + n - 1) div n" by (rule nat_ceiling_div)
  then have "unat cs2 = max 1 (nat \<lceil>real M / real_of_int (ranks c - 1)\<rceil>)"
    by (simp only: ucs2 ucs1 rn)
  with res show ?thesis unfolding Mmax by blast
qed

text \<open>
  The theorem on a group of three members with 10, 7 and 0 bytes (chunk size 5), and on a
  group of three members without a byte (chunk size 1).
\<close>

theorem scr_copy_xor_chunk_size_ceiling_witness:
  "scr_copy_xor_chunk_size (scr_ckptdesc_init\<lparr>ranks := 3\<rparr>) [10, 7, 0] = Some 5 \<and>
   scr_copy_xor_chunk_size (scr_ckptdesc_init\<lparr>ranks := 3\<rparr>) [0, 0, 0] = Some 1"
proof -
  have r: "2 \<le> ranks (scr_ckptdesc_init\<lparr>ranks := 3\<rparr>)" "ranks (scr_ckptdesc_init\<lparr>ranks := 3\<rparr>) < 2 ^ 31"
    by simp_all
  have a: "scr_copy_xor_chunk_size (scr_ckptdesc_init\<lparr>ranks := 3\<rparr>) [10, 7, 0] = Some 5"
    using scr_copy_xor_chunk_size_ceiling[OF r, of "[10, 7, 0]"]
    by (auto simp: word_unat_eq_iff)
  have b: "scr_copy_xor_chunk_size (scr_ckptdesc_init\<lparr>ranks := 3\<rparr>) [0, 0, 0] = Some 1"
    using scr_copy_xor_chunk_size_ceiling[OF r, of "[0, 0, 0]"]
    by (auto simp: word_unat_eq_iff)
  from a b show ?thesis by simp
qed

section \<open>Properties: detection in the XOR rebuild\<close>

lemma need_rebuild_01: "need_rebuild m = 0 \<or> need_rebuild m = 1"
  by (simp add: need_rebuild_def)

lemma total_rebuild_nonneg: "0 \<le> total_rebuild set'"
  unfolding total_rebuild_def allreduce_sum_def
  by (induction set') (simp_all add: need_rebuild_def)

lemma sum_list_01_one:
  fixes xs :: "int list"
  assumes "\<forall>x\<in>set xs. x = 0 \<or> x = 1" and "sum_list xs = 1"
  shows "\<exists>k<length xs. xs ! k = 1 \<and> (\<forall>j<length xs. j \<noteq> k \<longrightarrow> xs ! j = 0)"
  using assms
proof (induction xs)
  case Nil
  then show ?case by simp
next
  case (Cons x xs)
  have nn: "0 \<le> sum_list xs" using Cons.prems(1) by (intro sum_list_nonneg) auto
  from Cons.prems(1) consider "x = 0" | "x = 1" by auto
  then show ?case
  proof cases
    case 1
    with Cons.prems have "sum_list xs = 1" "\<forall>x\<in>set xs. x = 0 \<or> x = 1" by simp_all
    from Cons.IH[OF this(2) this(1)] obtain k where
      k: "k < length xs" "xs ! k = 1" "\<forall>j<length xs. j \<noteq> k \<longrightarrow> xs ! j = 0" by blast
    show ?thesis
    proof (intro exI[of _ "Suc k"] conjI allI impI)
      show "Suc k < length (x # xs)" using k by simp
      show "(x # xs) ! Suc k = 1" using k by simp
      fix j assume "j < length (x # xs)" "j \<noteq> Suc k"
      then show "(x # xs) ! j = 0" using k 1 by (cases j) auto
    qed
  next
    case 2
    with Cons.prems have z: "sum_list xs = 0" by simp
    have all0: "\<forall>y\<in>set xs. y = 0"
    proof (rule ccontr)
      assume "\<not> (\<forall>y\<in>set xs. y = 0)"
      then obtain y where y: "y \<in> set xs" "y \<noteq> 0" by blast
      with Cons.prems(1) have "y = 1" by auto
      have "y \<le> sum_list xs"
        using y(1) Cons.prems(1) by (intro member_le_sum_list) auto
      with \<open>y = 1\<close> z show False by simp
    qed
    show ?thesis
    proof (intro exI[of _ 0] conjI allI impI)
      show "0 < length (x # xs)" by simp
      show "(x # xs) ! 0 = 1" using 2 by simp
      fix j assume "j < length (x # xs)" "j \<noteq> 0"
      then show "(x # xs) ! j = 0" using all0 by (cases j) auto
    qed
  qed
qed

lemma only_rebuilder_ex:
  assumes "total_rebuild set' = 1"
  shows "\<exists>k. only_rebuilder set' k"
proof -
  have "\<forall>x\<in>set (map need_rebuild set'). x = 0 \<or> x = 1"
    using need_rebuild_01 by auto
  moreover have "sum_list (map need_rebuild set') = 1"
    using assms by (simp add: total_rebuild_def allreduce_sum_def)
  ultimately obtain k where "k < length (map need_rebuild set')"
      "map need_rebuild set' ! k = 1"
      "\<forall>j<length (map need_rebuild set'). j \<noteq> k \<longrightarrow> map need_rebuild set' ! j = 0"
    using sum_list_01_one by blast
  then have "only_rebuilder set' k" by (simp add: only_rebuilder_def)
  then show ?thesis ..
qed

lemma rebuild_rank_only:
  assumes "only_rebuilder set' k"
  shows "rebuild_rank set' = int k"
proof -
  let ?xs = "map (tmp_rank set') [0..<length set']"
  from assms have k: "k < length set'" by (simp add: only_rebuilder_def)
  then have ne: "?xs \<noteq> []" by auto
  have "Max (set ?xs) = int k"
  proof (rule Max_eqI)
    show "finite (set ?xs)" by simp
    show "int k \<in> set ?xs"
    proof -
      have "tmp_rank set' k = int k" using assms by (simp add: only_rebuilder_def tmp_rank_def)
      moreover have "k \<in> set [0..<length set']" using k by simp
      ultimately show ?thesis by (metis image_eqI set_map)
    qed
    fix y assume "y \<in> set ?xs"
    then obtain j where j: "j < length set'" "y = tmp_rank set' j" by auto
    show "y \<le> int k"
    proof (cases "j = k")
      case True
      with j assms show ?thesis by (simp add: only_rebuilder_def tmp_rank_def)
    next
      case False
      with j assms have "need_rebuild (set' ! j) = 0" by (simp add: only_rebuilder_def)
      with j show ?thesis by (simp add: tmp_rank_def)
    qed
  qed
  then show ?thesis
    unfolding rebuild_rank_def using allreduce_max_eq_Max[OF ne] by simp
qed

lemma ball_const_list: "(\<forall>m\<in>set xs. P) \<longleftrightarrow> xs = [] \<or> P"
  by (cases xs) auto

lemma first_alltrue:
  "scr_alltrue (concat (map (\<lambda>set'. map (\<lambda>m. set_can_rebuild set') set') world)) \<noteq> 0
     \<longleftrightarrow> (\<forall>set'\<in>set world. total_rebuild set' \<le> 1)"
proof -
  have e: "total_rebuild [] = 0" by (simp add: total_rebuild_def allreduce_sum_def)
  have "scr_alltrue (concat (map (\<lambda>set'. map (\<lambda>m. set_can_rebuild set') set') world)) \<noteq> 0
     \<longleftrightarrow> (\<forall>set'\<in>set world. \<forall>m\<in>set set'. set_can_rebuild set' \<noteq> 0)"
    by (auto simp: scr_alltrue_def list_all_iff)
  also have "\<dots> \<longleftrightarrow> (\<forall>set'\<in>set world. set' = [] \<or> total_rebuild set' \<le> 1)"
    by (auto simp add: ball_const_list set_can_rebuild_def)
  also have "\<dots> \<longleftrightarrow> (\<forall>set'\<in>set world. total_rebuild set' \<le> 1)"
    using e by (metis zero_le_one)
  finally show ?thesis .
qed

text \<open>
  C1. In \<^verbatim>\<open>scr_attempt_rebuild_xor\<close>, for every XOR set of the job and every member of
  it: the member needs a rebuild exactly when it does not have all of its files, the XOR
  file included; the set adds up the flags. If the sum is 0, \<^verbatim>\<open>scr_rebuild_xor\<close> is not
  called. If the sum is above 1, the function returns \<^verbatim>\<open>SCR_FAILURE\<close> after the all-reduce
  over the world, without a rebuild. If the sum is 1, exactly one member needs a rebuild,
  the maximum over the set of (rank if it needs a rebuild, else \<open>- 1\<close>) is the rank of that
  member, and it is the root handed to \<^verbatim>\<open>scr_rebuild_xor\<close>, which is called unless another
  set of the job cannot be rebuilt (then the function returns \<^verbatim>\<open>SCR_FAILURE\<close> at once).
\<close>

theorem scr_attempt_rebuild_xor_detection:
  assumes g: "g < length world" and r: "r < length (world ! g)"
  shows "(need_rebuild (world ! g ! r) \<noteq> 0 \<longleftrightarrow>
            \<not> (have_files (world ! g ! r) \<noteq> 0 \<and> have_xor_file (world ! g ! r) \<noteq> 0)) \<and>
         total_rebuild (world ! g) = sum_list (map need_rebuild (world ! g)) \<and>
         (total_rebuild (world ! g) = 0 \<longrightarrow> fst (scr_attempt_rebuild_xor world g r) = None) \<and>
         (1 < total_rebuild (world ! g) \<longrightarrow>
            scr_attempt_rebuild_xor world g r = (None, SCR_FAILURE)) \<and>
         (total_rebuild (world ! g) = 1 \<longrightarrow>
            (\<exists>k. only_rebuilder (world ! g) k \<and>
                 allreduce_max (map (tmp_rank (world ! g)) [0..<length (world ! g)]) = int k \<and>
                 (if \<forall>set'\<in>set world. total_rebuild set' \<le> 1
                  then fst (scr_attempt_rebuild_xor world g r) = Some (int k)
                  else scr_attempt_rebuild_xor world g r = (None, SCR_FAILURE))))"
proof (intro conjI impI)
  show "need_rebuild (world ! g ! r) \<noteq> 0 \<longleftrightarrow>
            \<not> (have_files (world ! g ! r) \<noteq> 0 \<and> have_xor_file (world ! g ! r) \<noteq> 0)"
    by (simp add: need_rebuild_def have_my_files_def)
  show "total_rebuild (world ! g) = sum_list (map need_rebuild (world ! g))"
    by (simp add: total_rebuild_def allreduce_sum_def)
  have mem: "world ! g \<in> set world" using g by simp
  {
    assume z: "total_rebuild (world ! g) = 0"
    show "fst (scr_attempt_rebuild_xor world g r) = None"
      using z by (simp add: scr_attempt_rebuild_xor_def rebuild_if_needed_def Let_def)
  }
  {
    assume m: "1 < total_rebuild (world ! g)"
    then have "\<not> (\<forall>set'\<in>set world. total_rebuild set' \<le> 1)" using mem by force
    then have "scr_alltrue (concat (map (\<lambda>set'. map (\<lambda>m. set_can_rebuild set') set') world)) = 0"
      using first_alltrue[of world] by blast
    then show "scr_attempt_rebuild_xor world g r = (None, SCR_FAILURE)"
      by (simp add: scr_attempt_rebuild_xor_def)
  }
  {
    assume o: "total_rebuild (world ! g) = 1"
    from only_rebuilder_ex[OF o] obtain k where k: "only_rebuilder (world ! g) k" ..
    have rr: "rebuild_rank (world ! g) = int k" by (rule rebuild_rank_only[OF k])
    have "if \<forall>set'\<in>set world. total_rebuild set' \<le> 1
          then fst (scr_attempt_rebuild_xor world g r) = Some (int k)
          else scr_attempt_rebuild_xor world g r = (None, SCR_FAILURE)"
    proof (cases "\<forall>set'\<in>set world. total_rebuild set' \<le> 1")
      case True
      then have "scr_alltrue (concat (map (\<lambda>set'. map (\<lambda>m. set_can_rebuild set') set') world)) \<noteq> 0"
        using first_alltrue[of world] by blast
      then have "fst (scr_attempt_rebuild_xor world g r) = Some (int k)"
        using o rr by (simp add: scr_attempt_rebuild_xor_def rebuild_if_needed_def Let_def)
      with True show ?thesis by simp
    next
      case False
      then have "scr_alltrue (concat (map (\<lambda>set'. map (\<lambda>m. set_can_rebuild set') set') world)) = 0"
        using first_alltrue[of world] by blast
      then have "scr_attempt_rebuild_xor world g r = (None, SCR_FAILURE)"
        by (simp add: scr_attempt_rebuild_xor_def)
      with False show ?thesis by simp
    qed
    with k rr show "\<exists>k. only_rebuilder (world ! g) k \<and>
                 allreduce_max (map (tmp_rank (world ! g)) [0..<length (world ! g)]) = int k \<and>
                 (if \<forall>set'\<in>set world. total_rebuild set' \<le> 1
                  then fst (scr_attempt_rebuild_xor world g r) = Some (int k)
                  else scr_attempt_rebuild_xor world g r = (None, SCR_FAILURE))"
      unfolding rebuild_rank_def by blast
  }
qed


text \<open>
  The theorem on a job of two XOR sets, where the member of rank 1 of the first set lost
  its files: on the member of rank 2 of that set \<^verbatim>\<open>scr_rebuild_xor\<close> is called with root 1;
  in the second set nothing is rebuilt. With two members lost in a set the function fails.
\<close>

theorem scr_attempt_rebuild_xor_detection_witness:
  "scr_attempt_rebuild_xor
     [[example_member_ok, example_member_lost, example_member_ok],
      [example_member_ok, example_member_ok]] 0 2 = (Some 1, SCR_SUCCESS) \<and>
   scr_attempt_rebuild_xor
     [[example_member_ok, example_member_lost, example_member_ok],
      [example_member_ok, example_member_ok]] 1 0 = (None, SCR_SUCCESS) \<and>
   scr_attempt_rebuild_xor
     [[example_member_lost, example_member_lost, example_member_ok]] 0 2 = (None, SCR_FAILURE)"
proof -
  let ?w = "[[example_member_ok, example_member_lost, example_member_ok],
             [example_member_ok, example_member_ok]]"
  let ?v = "[[example_member_lost, example_member_lost, example_member_ok]]"
  have n: "need_rebuild example_member_ok = 0" "need_rebuild example_member_lost = 1"
    by (simp_all add: need_rebuild_def have_my_files_def example_member_ok_def example_member_lost_def)
  have rc: "rebuild_xor_rc example_member_ok = (\<lambda>root. SCR_SUCCESS)"
    "rebuild_xor_rc example_member_lost = (\<lambda>root. SCR_SUCCESS)"
    by (simp_all add: example_member_ok_def example_member_lost_def)
  have t: "total_rebuild (?w ! 0) = 1" "total_rebuild (?w ! 1) = 0" "total_rebuild (?v ! 0) = 2"
    by (simp_all add: total_rebuild_def allreduce_sum_def n)
  have u: "[0..<3] = [0, 1, 2]" "[0..<2] = [0, 1]" by (simp_all add: upt_rec)
  have a: "scr_attempt_rebuild_xor ?w 0 2 = (Some 1, SCR_SUCCESS)"
    using scr_attempt_rebuild_xor_detection[of 0 ?w 2] t
    by (simp add: scr_attempt_rebuild_xor_def rebuild_if_needed_def rebuild_rank_def tmp_rank_def
        allreduce_max_def scr_alltrue_def set_can_rebuild_def total_rebuild_def allreduce_sum_def
        n rc u)
  have b: "scr_attempt_rebuild_xor ?w 1 0 = (None, SCR_SUCCESS)"
    using scr_attempt_rebuild_xor_detection[of 1 ?w 0] t
    by (simp add: scr_attempt_rebuild_xor_def rebuild_if_needed_def rebuild_rank_def tmp_rank_def
        allreduce_max_def scr_alltrue_def set_can_rebuild_def total_rebuild_def allreduce_sum_def
        n rc u)
  have c: "scr_attempt_rebuild_xor ?v 0 2 = (None, SCR_FAILURE)"
    using scr_attempt_rebuild_xor_detection[of 0 ?v 2] t by simp
  from a b c show ?thesis by simp
qed

section \<open>Properties: the partner validity rule\<close>

lemma those_map_nth:
  "those (map f xs) = Some ys \<Longrightarrow> length ys = length xs \<and> (\<forall>i<length xs. f (xs ! i) = Some (ys ! i))"
proof (induction xs arbitrary: ys)
  case Nil
  then show ?case by simp
next
  case (Cons x xs)
  from Cons.prems obtain y zs where y: "f x = Some y" and zs: "those (map f xs) = Some zs"
    and ys: "ys = y # zs"
    by (auto split: option.splits)
  from Cons.IH[OF zs] have l: "length zs = length xs" and n: "\<forall>i<length xs. f (xs ! i) = Some (zs ! i)"
    by simp_all
  show ?case
  proof (intro conjI allI impI)
    show "length ys = length (x # xs)" using l ys by simp
    fix i assume "i < length (x # xs)"
    then show "f ((x # xs) ! i) = Some (ys ! i)" using y n ys by (cases i) simp_all
  qed
qed

lemma scr_alltrue_iff: "scr_alltrue flags \<noteq> 0 \<longleftrightarrow> (\<forall>flag\<in>set flags. flag \<noteq> 0)"
  by (simp add: scr_alltrue_def list_all_iff)

lemma list_ex_map_upt: "list_ex P (map f [0..<n]) \<longleftrightarrow> (\<exists>i<n. P (f i))"
  by (auto simp: list_ex_iff)

lemma create_from_hash_scalars_copy_type:
  "copy_type (create_from_hash_scalars p i) = SCR_COPY_NULL"
  by (simp add: create_from_hash_scalars_def scr_ckptdesc_init_def Let_def split: option.splits)

lemma create_from_hash_type_cases:
  "enabled (create_from_hash_type value p c) = 0 \<or>
   copy_type (create_from_hash_type value p c) \<in> {SCR_COPY_LOCAL, SCR_COPY_PARTNER, SCR_COPY_XOR}"
  by (simp add: create_from_hash_type_def Let_def)

lemma create_from_hash_partners_fields:
  "create_from_hash_partners world cs members i = Some c \<Longrightarrow>
     copy_type c = copy_type (cs ! i) \<and> enabled c = enabled (cs ! i)"
  by (auto simp: create_from_hash_partners_def store_partners_def split: option.splits if_splits)

lemma create_from_hash_check_props:
  "copy_type (create_from_hash_check p c) = copy_type c \<and>
   lhs_hostname (create_from_hash_check p c) = lhs_hostname c \<and>
   rhs_hostname (create_from_hash_check p c) = rhs_hostname c \<and>
   (enabled (create_from_hash_check p c) = 0 \<or> enabled (create_from_hash_check p c) = enabled c) \<and>
   (copy_type c = SCR_COPY_PARTNER \<or> copy_type c = SCR_COPY_XOR \<longrightarrow>
      valid_partners p (create_from_hash_check p c) \<or> enabled (create_from_hash_check p c) = 0)"
  by (simp add: create_from_hash_check_def valid_partners_def)

text \<open>
  The descriptors that come out of the topology construction: one for each process, and
  each is disabled or has one of the three copy types.
\<close>

lemma create_from_hash_topology_fields:
  assumes "create_from_hash_topology world cs = Some (Return cs')"
  shows "length cs' = length world \<and>
     (\<forall>i<length world. enabled (cs' ! i) = 0 \<or>
         copy_type (cs' ! i) \<in> {SCR_COPY_LOCAL, SCR_COPY_PARTNER, SCR_COPY_XOR})"
proof -
  let ?n = "length world"
  let ?tv = "\<lambda>i. scr_hash_elem_get_first_val (proc_hash (world ! i)) SCR_CONFIG_KEY_TYPE"
  let ?cs1 = "map (\<lambda>i. case ?tv i of None \<Rightarrow> cs ! i
                         | Some value \<Rightarrow> create_from_hash_type value (world ! i) (cs ! i)) [0..<?n]"
  from assms obtain members cs2 where
    tv: "\<not> list_ex (\<lambda>i. ?tv i = None) [0..<?n]"
    and cs2: "cs2 = map (\<lambda>c. c\<lparr>groups := allreduce_sum (map (\<lambda>c. if my_rank c = 0 then 1 else 0)
                  (map (\<lambda>i. create_from_hash_position (members i) i (?cs1 ! i)) [0..<?n]))\<rparr>)
                  (map (\<lambda>i. create_from_hash_position (members i) i (?cs1 ! i)) [0..<?n])"
    and th: "those (map (\<lambda>i. create_from_hash_partners world cs2 (members i) i) [0..<?n]) = Some cs'"
    unfolding create_from_hash_topology_def Let_def
    by (auto split: if_splits option.splits)
  from those_map_nth[OF th] have len: "length cs' = ?n"
    and nth: "\<forall>i<?n. create_from_hash_partners world cs2 (members i) i = Some (cs' ! i)"
    by simp_all
  have "enabled (cs' ! i) = 0 \<or> copy_type (cs' ! i) \<in> {SCR_COPY_LOCAL, SCR_COPY_PARTNER, SCR_COPY_XOR}"
    if i: "i < ?n" for i
  proof -
    from nth i have "create_from_hash_partners world cs2 (members i) i = Some (cs' ! i)" by simp
    from create_from_hash_partners_fields[OF this]
    have f: "copy_type (cs' ! i) = copy_type (cs2 ! i)" "enabled (cs' ! i) = enabled (cs2 ! i)" by simp_all
    from tv i have "?tv i \<noteq> None" by (simp add: list_ex_iff)
    then obtain v where v: "?tv i = Some v" by blast
    have c2: "copy_type (cs2 ! i) = copy_type (create_from_hash_type v (world ! i) (cs ! i))"
      "enabled (cs2 ! i) = enabled (create_from_hash_type v (world ! i) (cs ! i))"
      using i v by (simp_all add: cs2 create_from_hash_position_def)
    show ?thesis unfolding f c2 by (rule create_from_hash_type_cases)
  qed
  with len show ?thesis by simp
qed

text \<open>
  The end of the function: the copy types stay, a descriptor is only ever disabled, the
  check leaves a descriptor of type \<^verbatim>\<open>PARTNER\<close> or \<^verbatim>\<open>XOR\<close> with valid partners or disabled,
  and after the all-reduce all descriptors are enabled or none is.
\<close>

lemma create_from_hash_finish_props:
  assumes len: "length cs = length world"
  shows "length (create_from_hash_finish world cs) = length world \<and>
     (\<forall>i<length world.
        copy_type (create_from_hash_finish world cs ! i) = copy_type (cs ! i) \<and>
        (enabled (create_from_hash_finish world cs ! i) = 0 \<or>
         enabled (create_from_hash_finish world cs ! i) = enabled (cs ! i)) \<and>
        (copy_type (cs ! i) = SCR_COPY_PARTNER \<or> copy_type (cs ! i) = SCR_COPY_XOR \<longrightarrow>
           valid_partners (world ! i) (create_from_hash_finish world cs ! i) \<or>
           enabled (create_from_hash_finish world cs ! i) = 0)) \<and>
     ((\<forall>c\<in>set (create_from_hash_finish world cs). enabled c \<noteq> 0) \<or>
      (\<forall>c\<in>set (create_from_hash_finish world cs). enabled c = 0))"
proof -
  let ?ch = "map (\<lambda>(p, c). create_from_hash_check p c) (zip world cs)"
  let ?fin = "\<lambda>c. if scr_alltrue (map enabled ?ch) = 0 then c\<lparr>enabled := 0\<rparr> else c"
  have fin: "create_from_hash_finish world cs = map ?fin ?ch"
    by (simp add: create_from_hash_finish_def Let_def)
  have l: "length (create_from_hash_finish world cs) = length world" using len by (simp add: fin)
  have vp: "valid_partners p (?fin c) = valid_partners p c" for p and c :: scr_ckptdesc
    by (simp add: valid_partners_def)
  have each: "copy_type (create_from_hash_finish world cs ! i) = copy_type (cs ! i) \<and>
        (enabled (create_from_hash_finish world cs ! i) = 0 \<or>
         enabled (create_from_hash_finish world cs ! i) = enabled (cs ! i)) \<and>
        (copy_type (cs ! i) = SCR_COPY_PARTNER \<or> copy_type (cs ! i) = SCR_COPY_XOR \<longrightarrow>
           valid_partners (world ! i) (create_from_hash_finish world cs ! i) \<or>
           enabled (create_from_hash_finish world cs ! i) = 0)"
    if i: "i < length world" for i
  proof -
    have e: "create_from_hash_finish world cs ! i = ?fin (create_from_hash_check (world ! i) (cs ! i))"
      using i len by (simp add: fin)
    note pr = create_from_hash_check_props[of "world ! i" "cs ! i"]
    show ?thesis unfolding e vp using pr by auto
  qed
  have all: "(\<forall>c\<in>set (create_from_hash_finish world cs). enabled c \<noteq> 0) \<or>
      (\<forall>c\<in>set (create_from_hash_finish world cs). enabled c = 0)"
  proof (cases "scr_alltrue (map enabled ?ch) = 0")
    case True
    then show ?thesis unfolding fin by simp
  next
    case False
    then have "\<forall>flag\<in>set (map enabled ?ch). flag \<noteq> 0" by (simp add: scr_alltrue_iff)
    with False show ?thesis unfolding fin by simp
  qed
  from l each all show ?thesis by blast
qed

text \<open>
  C6. Whenever \<^verbatim>\<open>scr_ckptdesc_create_from_hash\<close> returns, on every process whose
  descriptor has the copy type \<^verbatim>\<open>PARTNER\<close> or \<^verbatim>\<open>XOR\<close>, either both partner hostnames
  are there and differ from the hostname of the process, or the descriptor is disabled.
  If the hash of some process has a \<^verbatim>\<open>TYPE\<close> key (so that the all-reduce at the end is
  reached), the descriptor is enabled on every process or on none, and on every process
  where it is enabled with a copy type other than \<^verbatim>\<open>LOCAL\<close>, both partner hostnames
  differ from the hostname of the process.
\<close>

theorem create_from_hash_partners_valid:
  assumes "scr_ckptdesc_create_from_hash index' world = Some (Return rs)"
  shows "length rs = length world \<and>
     (\<forall>i<length world. \<forall>c. snd (rs ! i) = Some c \<longrightarrow>
        copy_type c = SCR_COPY_PARTNER \<or> copy_type c = SCR_COPY_XOR \<longrightarrow>
        valid_partners (world ! i) c \<or> enabled c = 0) \<and>
     ((\<exists>p\<in>set world. scr_hash_elem_get_first_val (proc_hash p) SCR_CONFIG_KEY_TYPE \<noteq> None) \<longrightarrow>
        ((\<forall>r\<in>set rs. \<forall>c. snd r = Some c \<longrightarrow> enabled c \<noteq> 0) \<or>
         (\<forall>r\<in>set rs. \<forall>c. snd r = Some c \<longrightarrow> enabled c = 0)) \<and>
        (\<forall>i<length world. \<forall>c. snd (rs ! i) = Some c \<longrightarrow>
           enabled c \<noteq> 0 \<and> copy_type c \<noteq> SCR_COPY_LOCAL \<longrightarrow>
           lhs_hostname c \<noteq> scr_my_hostname (world ! i) \<and>
           rhs_hostname c \<noteq> scr_my_hostname (world ! i)))"
proof -
  let ?ok = "scr_alltrue (map (\<lambda>p. if (if proc_c p = None \<or> proc_hash p = None then SCR_FAILURE
                    else SCR_SUCCESS) = SCR_SUCCESS then 1 else 0) world) \<noteq> 0"
  let ?notype = "list_all (\<lambda>p. scr_hash_elem_get_first_val (proc_hash p) SCR_CONFIG_KEY_TYPE = None) world"
  let ?cs = "map (\<lambda>p. create_from_hash_scalars p index') world"
  consider (failed) "\<not> ?ok"
    | (notype) "?ok" "?notype"
    | (typed) "?ok" "\<not> ?notype"
    by blast
  then show ?thesis
  proof cases
    case failed
    then have rs: "rs = map (\<lambda>p. (SCR_FAILURE, map_option (\<lambda>c. c\<lparr>enabled := 0\<rparr>) (proc_c p))) world"
      using assms by (simp add: scr_ckptdesc_create_from_hash_def Let_def)
    have dis: "enabled c = 0" if "i < length world" "snd (rs ! i) = Some c" for i c
      using that by (auto simp: rs)
    have dis': "enabled c = 0" if "r \<in> set rs" "snd r = Some c" for r c
      using that by (auto simp: rs)
    have l: "length rs = length world" by (simp add: rs)
    from l dis dis' show ?thesis by blast
  next
    case notype
    then have rs: "rs = map (\<lambda>c. (SCR_SUCCESS, Some c)) ?cs"
      using assms by (simp add: scr_ckptdesc_create_from_hash_def Let_def)
    have l: "length rs = length world" by (simp add: rs)
    have ct: "copy_type c = SCR_COPY_NULL" if "i < length world" "snd (rs ! i) = Some c" for i c
      using that by (auto simp: rs create_from_hash_scalars_copy_type)
    have nt: "\<not> (\<exists>p\<in>set world. scr_hash_elem_get_first_val (proc_hash p) SCR_CONFIG_KEY_TYPE \<noteq> None)"
      using notype(2) by (simp add: list_all_iff)
    from l ct nt show ?thesis by auto
  next
    case typed
    from assms typed obtain cs' where
      top: "create_from_hash_topology world ?cs = Some (Return cs')"
      and rs: "rs = map (\<lambda>c. (SCR_SUCCESS, Some c)) (create_from_hash_finish world cs')"
      by (auto simp: scr_ckptdesc_create_from_hash_def Let_def split: option.splits outcome.splits)
    from create_from_hash_topology_fields[OF top]
    have len: "length cs' = length world"
      and ty: "\<forall>i<length world. enabled (cs' ! i) = 0 \<or>
                 copy_type (cs' ! i) \<in> {SCR_COPY_LOCAL, SCR_COPY_PARTNER, SCR_COPY_XOR}"
      by simp_all
    let ?f = "create_from_hash_finish world cs'"
    from create_from_hash_finish_props[OF len]
    have fl: "length ?f = length world"
      and each: "\<forall>i<length world.
        copy_type (?f ! i) = copy_type (cs' ! i) \<and>
        (enabled (?f ! i) = 0 \<or> enabled (?f ! i) = enabled (cs' ! i)) \<and>
        (copy_type (cs' ! i) = SCR_COPY_PARTNER \<or> copy_type (cs' ! i) = SCR_COPY_XOR \<longrightarrow>
           valid_partners (world ! i) (?f ! i) \<or> enabled (?f ! i) = 0)"
      and all: "(\<forall>c\<in>set ?f. enabled c \<noteq> 0) \<or> (\<forall>c\<in>set ?f. enabled c = 0)"
      by simp_all
    have l: "length rs = length world" by (simp add: rs fl)
    have nth: "snd (rs ! i) = Some (?f ! i)" if "i < length world" for i
      using that fl by (simp add: rs)
    have a: "valid_partners (world ! i) c \<or> enabled c = 0"
      if "i < length world" "snd (rs ! i) = Some c"
         "copy_type c = SCR_COPY_PARTNER \<or> copy_type c = SCR_COPY_XOR" for i c
    proof -
      from that(1,2) nth have c: "c = ?f ! i" by simp
      from each that(1) that(3) show ?thesis unfolding c by auto
    qed
    have b: "(\<forall>r\<in>set rs. \<forall>c. snd r = Some c \<longrightarrow> enabled c \<noteq> 0) \<or>
         (\<forall>r\<in>set rs. \<forall>c. snd r = Some c \<longrightarrow> enabled c = 0)"
      using all by (auto simp: rs)
    have d: "lhs_hostname c \<noteq> scr_my_hostname (world ! i) \<and> rhs_hostname c \<noteq> scr_my_hostname (world ! i)"
      if "i < length world" "snd (rs ! i) = Some c" "enabled c \<noteq> 0 \<and> copy_type c \<noteq> SCR_COPY_LOCAL" for i c
    proof -
      from that(1,2) nth have c: "c = ?f ! i" by simp
      from each that(1) have e: "copy_type (?f ! i) = copy_type (cs' ! i)"
        "enabled (?f ! i) = 0 \<or> enabled (?f ! i) = enabled (cs' ! i)" by simp_all
      from that(3) e have "enabled (cs' ! i) \<noteq> 0" "copy_type (cs' ! i) \<noteq> SCR_COPY_LOCAL"
        unfolding c by auto
      with ty that(1) have "copy_type (cs' ! i) = SCR_COPY_PARTNER \<or> copy_type (cs' ! i) = SCR_COPY_XOR"
        by auto
      with e(1) have "copy_type c = SCR_COPY_PARTNER \<or> copy_type c = SCR_COPY_XOR" unfolding c by simp
      from a[OF that(1,2) this] that(3) show ?thesis by (simp add: valid_partners_def)
    qed
    from l a b d show ?thesis by blast
  qed
qed

lemma create_from_hash_topology_fault:
  assumes i: "i < length world"
    and ty: "scr_hash_elem_get_first_val (proc_hash (world ! i)) SCR_CONFIG_KEY_TYPE = Some value"
    and xor: "copy_type (create_from_hash_type value (world ! i) (cs ! i)) = SCR_COPY_XOR"
    and grp: "scr_hash_elem_get_first_val (proc_hash (world ! i)) SCR_CONFIG_KEY_GROUP_ID = None \<or>
              scr_hash_elem_get_first_val (proc_hash (world ! i)) SCR_CONFIG_KEY_GROUP_RANK = None"
    and z: "hop_distance (cs ! i) = 0 \<or> set_size (cs ! i) = 0"
  shows "create_from_hash_topology world cs = Some Fault"
proof -
  let ?c = "create_from_hash_type value (world ! i) (cs ! i)"
  have hs: "hop_distance ?c = hop_distance (cs ! i)" "set_size ?c = set_size (cs ! i)"
    by (simp_all add: create_from_hash_type_def Let_def)
  have "create_from_hash_comm_call (proc_hash (world ! i)) (scr_my_rank_level world i) (int i) ?c = Fault"
    using grp xor z hs by (auto simp: create_from_hash_comm_call_def Let_def split: option.splits)
  then show ?thesis
    unfolding create_from_hash_topology_def Let_def list_ex_map_upt
    using i ty by (auto simp: list_ex_iff)
qed

lemma create_from_hash_topology_null:
  assumes i: "i < length world"
    and ty: "scr_hash_elem_get_first_val (proc_hash (world ! i)) SCR_CONFIG_KEY_TYPE = Some value"
    and null: "copy_type (create_from_hash_type value (world ! i) (cs ! i)) = SCR_COPY_NULL"
    and grp: "scr_hash_elem_get_first_val (proc_hash (world ! i)) SCR_CONFIG_KEY_GROUP_ID = None \<or>
              scr_hash_elem_get_first_val (proc_hash (world ! i)) SCR_CONFIG_KEY_GROUP_RANK = None"
  shows "create_from_hash_topology world cs = Some Abort \<or>
         create_from_hash_topology world cs = Some Fault"
proof -
  let ?n = "length world"
  let ?tv = "\<lambda>i. scr_hash_elem_get_first_val (proc_hash (world ! i)) SCR_CONFIG_KEY_TYPE"
  let ?cs1 = "map (\<lambda>i. case ?tv i of None \<Rightarrow> cs ! i
                         | Some value \<Rightarrow> create_from_hash_type value (world ! i) (cs ! i)) [0..<?n]"
  let ?calls = "map (\<lambda>i. case ?tv i of None \<Rightarrow> Return Comm_absent
                         | Some value \<Rightarrow> create_from_hash_comm_call (proc_hash (world ! i))
                              (scr_my_rank_level world i) (int i) (?cs1 ! i)) [0..<?n]"
  let ?calls2 = "map (\<lambda>call. case call of Return r \<Rightarrow> r | _ \<Rightarrow> Comm_null) ?calls"
  have ci: "?calls ! i = Return Comm_null"
    using i ty null grp by (auto simp: create_from_hash_comm_call_def split: option.splits)
  have "i < length ?calls" using i by simp
  then have "?calls2 ! i = (case ?calls ! i of Return r \<Rightarrow> r | _ \<Rightarrow> Comm_null)"
    by (rule nth_map)
  then have "?calls2 ! i = Comm_null" unfolding ci by simp
  then have "create_from_hash_comm world ?calls2 i = Some Abort"
    by (simp add: create_from_hash_comm_def)
  then have ab: "list_ex (\<lambda>r. r = Some Abort) (map (create_from_hash_comm world ?calls2) [0..<?n])"
    unfolding list_ex_map_upt using i by blast
  show ?thesis
  proof (cases "list_ex (\<lambda>call. call = Fault) ?calls")
    case True
    then have "create_from_hash_topology world cs = Some Fault"
      unfolding create_from_hash_topology_def Let_def by (simp only: if_True)
    then show ?thesis by simp
  next
    case False
    then have "create_from_hash_topology world cs = Some Abort"
      unfolding create_from_hash_topology_def Let_def using ab by (simp only: if_True if_False)
    then show ?thesis by simp
  qed
qed

lemma create_from_hash_all_present:
  assumes "\<forall>p\<in>set world. proc_c p \<noteq> None \<and> proc_hash p \<noteq> None"
  shows "scr_alltrue (map (\<lambda>p. if (if proc_c p = None \<or> proc_hash p = None then SCR_FAILURE
                    else SCR_SUCCESS) = SCR_SUCCESS then 1 else 0) world) \<noteq> 0"
proof -
  have "list_all (\<lambda>flag. flag \<noteq> 0) (map (\<lambda>p. if (if proc_c p = None \<or> proc_hash p = None then SCR_FAILURE
                    else SCR_SUCCESS) = SCR_SUCCESS then 1 else (0::int)) world)"
    unfolding list_all_iff using assms by auto
  then show ?thesis by (simp only: scr_alltrue_def if_True)
qed

text \<open>
  Where the C code ends the job, the model gives no descriptors. A process whose hash has
  an unknown \<^verbatim>\<open>TYPE\<close> and not both group keys, in a job that is not on one node, keeps
  \<^verbatim>\<open>MPI_COMM_NULL\<close>, and \<^verbatim>\<open>MPI_Comm_rank\<close> fails on it (unless a division by zero on some
  process ends the job first); a process with the type \<^verbatim>\<open>XOR\<close> and a hop distance or a
  set size of 0 divides by zero.
\<close>

lemma scr_ckptdesc_create_from_hash_unknown_type:
  assumes ok: "\<forall>p\<in>set world. proc_c p \<noteq> None \<and> proc_hash p \<noteq> None"
    and i: "i < length world"
    and ty: "scr_hash_elem_get_first_val (proc_hash (world ! i)) SCR_CONFIG_KEY_TYPE = Some value"
    and un: "\<not> strcasecmp_eq value ''LOCAL''" "\<not> strcasecmp_eq value ''PARTNER''"
            "\<not> strcasecmp_eq value ''XOR''"
    and nodes: "scr_ranks_local (world ! i) \<noteq> scr_ranks_world (world ! i)"
    and grp: "scr_hash_elem_get_first_val (proc_hash (world ! i)) SCR_CONFIG_KEY_GROUP_ID = None \<or>
              scr_hash_elem_get_first_val (proc_hash (world ! i)) SCR_CONFIG_KEY_GROUP_RANK = None"
  shows "scr_ckptdesc_create_from_hash index' world = Some Abort \<or>
         scr_ckptdesc_create_from_hash index' world = Some Fault"
proof -
  let ?cs = "map (\<lambda>p. create_from_hash_scalars p index') world"
  note a = create_from_hash_all_present[OF ok]
  have b: "\<not> list_all (\<lambda>p. scr_hash_elem_get_first_val (proc_hash p) SCR_CONFIG_KEY_TYPE = None) world"
    using i ty by (auto simp: list_all_iff)
  have "copy_type (create_from_hash_type value (world ! i) (?cs ! i)) = SCR_COPY_NULL"
    using un nodes i by (simp add: create_from_hash_type_def create_from_hash_scalars_copy_type)
  from create_from_hash_topology_null[OF i ty this grp]
  have "create_from_hash_topology world ?cs = Some Abort \<or> create_from_hash_topology world ?cs = Some Fault" .
  then show ?thesis
    using a b by (auto simp: scr_ckptdesc_create_from_hash_def Let_def)
qed

lemma scr_ckptdesc_create_from_hash_division_by_zero:
  assumes ok: "\<forall>p\<in>set world. proc_c p \<noteq> None \<and> proc_hash p \<noteq> None"
    and i: "i < length world"
    and ty: "scr_hash_elem_get_first_val (proc_hash (world ! i)) SCR_CONFIG_KEY_TYPE = Some value"
    and xor: "\<not> strcasecmp_eq value ''LOCAL''" "\<not> strcasecmp_eq value ''PARTNER''"
             "strcasecmp_eq value ''XOR''"
    and nodes: "scr_ranks_local (world ! i) \<noteq> scr_ranks_world (world ! i)"
    and grp: "scr_hash_elem_get_first_val (proc_hash (world ! i)) SCR_CONFIG_KEY_GROUP_ID = None \<or>
              scr_hash_elem_get_first_val (proc_hash (world ! i)) SCR_CONFIG_KEY_GROUP_RANK = None"
    and z: "hop_distance (create_from_hash_scalars (world ! i) index') = 0 \<or>
            set_size (create_from_hash_scalars (world ! i) index') = 0"
  shows "scr_ckptdesc_create_from_hash index' world = Some Fault"
proof -
  let ?cs = "map (\<lambda>p. create_from_hash_scalars p index') world"
  note a = create_from_hash_all_present[OF ok]
  have b: "\<not> list_all (\<lambda>p. scr_hash_elem_get_first_val (proc_hash p) SCR_CONFIG_KEY_TYPE = None) world"
    using i ty by (auto simp: list_all_iff)
  have c: "copy_type (create_from_hash_type value (world ! i) (?cs ! i)) = SCR_COPY_XOR"
    using xor nodes i by (simp add: create_from_hash_type_def)
  have z': "hop_distance (?cs ! i) = 0 \<or> set_size (?cs ! i) = 0" using z i by simp
  from create_from_hash_topology_fault[OF i ty c grp z']
  show ?thesis
    using a b by (simp add: scr_ckptdesc_create_from_hash_def Let_def)
qed

text \<open>
  On the example job: an unknown type ends the job in \<^verbatim>\<open>MPI_Comm_rank\<close>, and the type
  \<^verbatim>\<open>XOR\<close> with a hop distance or a set size of 0 ends it in a division.
\<close>

lemma create_from_hash_examples:
  "scr_ckptdesc_create_from_hash 0 (example_world ''bogus'') = Some Abort"
  "scr_ckptdesc_create_from_hash 0 (map (\<lambda>p. p\<lparr>scr_hop_distance := 0\<rparr>) (example_world ''XOR'')) = Some Fault"
  "scr_ckptdesc_create_from_hash 0 (map (\<lambda>p. p\<lparr>scr_set_size := 0\<rparr>) (example_world ''XOR'')) = Some Fault"
  by code_simp+

text \<open>
  The theorem on the two example jobs. With one process per node and the type \<^verbatim>\<open>xor\<close>,
  every process gets the hostnames of its two neighbours on the ring and the descriptor
  stays enabled. With the processes of ranks 0 and 1 on one node and the type
  \<^verbatim>\<open>Partner\<close>, the process of rank 1 is alone at its level and is its own partner; it
  disables the descriptor, and the all-reduce disables it on the others, whose partners
  are valid.
\<close>

theorem create_from_hash_partners_valid_witness:
  "(\<exists>rs. scr_ckptdesc_create_from_hash 0 (example_world ''xor'') = Some (Return rs) \<and>
      length rs = 4 \<and>
      map (\<lambda>r. map_option (\<lambda>c. (enabled c, copy_type c, lhs_hostname c, rhs_hostname c)) (snd r)) rs =
        [Some (1, SCR_COPY_XOR, ''n3'', ''n1''), Some (1, SCR_COPY_XOR, ''n0'', ''n2''),
         Some (1, SCR_COPY_XOR, ''n1'', ''n3''), Some (1, SCR_COPY_XOR, ''n2'', ''n0'')] \<and>
      (\<forall>i<4. \<forall>c. snd (rs ! i) = Some c \<longrightarrow> valid_partners (example_world ''xor'' ! i) c)) \<and>
   (\<exists>rs. scr_ckptdesc_create_from_hash 0 (example_world2 ''Partner'') = Some (Return rs) \<and>
      length rs = 4 \<and>
      map (\<lambda>r. map_option (\<lambda>c. (enabled c, copy_type c, lhs_hostname c, rhs_hostname c)) (snd r)) rs =
        [Some (0, SCR_COPY_PARTNER, ''n2'', ''n1''), Some (0, SCR_COPY_PARTNER, ''n0'', ''n0''),
         Some (0, SCR_COPY_PARTNER, ''n0'', ''n2''), Some (0, SCR_COPY_PARTNER, ''n1'', ''n0'')] \<and>
      (\<forall>i<4. \<forall>c. snd (rs ! i) = Some c \<longrightarrow>
         valid_partners (example_world2 ''Partner'' ! i) c \<or> enabled c = 0))"
proof -
  let ?g = "\<lambda>r. map_option (\<lambda>c. (enabled c, copy_type c, lhs_hostname c, rhs_hostname c)) (snd r)"
  let ?pr = "\<lambda>out. map_option (\<lambda>r. case r of Return rs \<Rightarrow> map ?g rs | _ \<Rightarrow> []) out"
  let ?h = "\<lambda>r. map_option (\<lambda>c. (enabled c, copy_type c)) (snd r)"
  let ?pr2 = "\<lambda>out. map_option (\<lambda>r. case r of Return rs \<Rightarrow> map ?h rs | _ \<Rightarrow> []) out"
  have a: "\<exists>rs. scr_ckptdesc_create_from_hash 0 (example_world ''xor'') = Some (Return rs) \<and>
      length rs = 4 \<and>
      map ?g rs =
        [Some (1, SCR_COPY_XOR, ''n3'', ''n1''), Some (1, SCR_COPY_XOR, ''n0'', ''n2''),
         Some (1, SCR_COPY_XOR, ''n1'', ''n3''), Some (1, SCR_COPY_XOR, ''n2'', ''n0'')] \<and>
      (\<forall>i<4. \<forall>c. snd (rs ! i) = Some c \<longrightarrow> valid_partners (example_world ''xor'' ! i) c)"
  proof -
    have "case scr_ckptdesc_create_from_hash 0 (example_world ''xor'') of
            Some (Return rs) \<Rightarrow> True | _ \<Rightarrow> False"
      by code_simp
    then obtain rs where rs: "scr_ckptdesc_create_from_hash 0 (example_world ''xor'') = Some (Return rs)"
      by (auto split: option.splits outcome.splits)
    have "?pr (scr_ckptdesc_create_from_hash 0 (example_world ''xor'')) =
        Some [Some (1, SCR_COPY_XOR, ''n3'', ''n1''), Some (1, SCR_COPY_XOR, ''n0'', ''n2''),
              Some (1, SCR_COPY_XOR, ''n1'', ''n3''), Some (1, SCR_COPY_XOR, ''n2'', ''n0'')]"
      by code_simp
    then have pr: "map ?g rs =
        [Some (1, SCR_COPY_XOR, ''n3'', ''n1''), Some (1, SCR_COPY_XOR, ''n0'', ''n2''),
         Some (1, SCR_COPY_XOR, ''n1'', ''n3''), Some (1, SCR_COPY_XOR, ''n2'', ''n0'')]"
      by (simp add: rs)
    have "?pr2 (scr_ckptdesc_create_from_hash 0 (example_world ''xor'')) =
        Some (replicate 4 (Some (1, SCR_COPY_XOR)))"
      by code_simp
    then have pr2: "map ?h rs = replicate 4 (Some (1, SCR_COPY_XOR))" by (simp add: rs)
    note th = create_from_hash_partners_valid[OF rs]
    from th have "length rs = length (example_world ''xor'')" by (rule conjunct1)
    then have len: "length rs = 4" by (simp add: example_world_def)
    have v: "valid_partners (example_world ''xor'' ! i) c" if i: "i < 4" and c: "snd (rs ! i) = Some c" for i c
    proof -
      have "?h (rs ! i) = map ?h rs ! i" using i len by simp
      also have "\<dots> = Some (1, SCR_COPY_XOR)" unfolding pr2 using i by simp
      finally have e: "enabled c \<noteq> 0" "copy_type c = SCR_COPY_XOR" using c by simp_all
      have il: "i < length (example_world ''xor'')" using i by (simp add: example_world_def)
      from th have "\<forall>i<length (example_world ''xor''). \<forall>c. snd (rs ! i) = Some c \<longrightarrow>
          copy_type c = SCR_COPY_PARTNER \<or> copy_type c = SCR_COPY_XOR \<longrightarrow>
          valid_partners (example_world ''xor'' ! i) c \<or> enabled c = 0"
        by (rule conjunct2[THEN conjunct1])
      with il c e show ?thesis by blast
    qed
    from v have v': "\<forall>i<4. \<forall>c. snd (rs ! i) = Some c \<longrightarrow> valid_partners (example_world ''xor'' ! i) c"
      by blast
    show ?thesis by (intro exI[of _ rs] conjI) (fact rs len pr v')+
  qed
  have b: "\<exists>rs. scr_ckptdesc_create_from_hash 0 (example_world2 ''Partner'') = Some (Return rs) \<and>
      length rs = 4 \<and>
      map ?g rs =
        [Some (0, SCR_COPY_PARTNER, ''n2'', ''n1''), Some (0, SCR_COPY_PARTNER, ''n0'', ''n0''),
         Some (0, SCR_COPY_PARTNER, ''n0'', ''n2''), Some (0, SCR_COPY_PARTNER, ''n1'', ''n0'')] \<and>
      (\<forall>i<4. \<forall>c. snd (rs ! i) = Some c \<longrightarrow>
         valid_partners (example_world2 ''Partner'' ! i) c \<or> enabled c = 0)"
  proof -
    have "case scr_ckptdesc_create_from_hash 0 (example_world2 ''Partner'') of
            Some (Return rs) \<Rightarrow> True | _ \<Rightarrow> False"
      by code_simp
    then obtain rs where rs: "scr_ckptdesc_create_from_hash 0 (example_world2 ''Partner'') = Some (Return rs)"
      by (auto split: option.splits outcome.splits)
    have "?pr (scr_ckptdesc_create_from_hash 0 (example_world2 ''Partner'')) =
        Some [Some (0, SCR_COPY_PARTNER, ''n2'', ''n1''), Some (0, SCR_COPY_PARTNER, ''n0'', ''n0''),
              Some (0, SCR_COPY_PARTNER, ''n0'', ''n2''), Some (0, SCR_COPY_PARTNER, ''n1'', ''n0'')]"
      by code_simp
    then have pr: "map ?g rs =
        [Some (0, SCR_COPY_PARTNER, ''n2'', ''n1''), Some (0, SCR_COPY_PARTNER, ''n0'', ''n0''),
         Some (0, SCR_COPY_PARTNER, ''n0'', ''n2''), Some (0, SCR_COPY_PARTNER, ''n1'', ''n0'')]"
      by (simp add: rs)
    have "?pr2 (scr_ckptdesc_create_from_hash 0 (example_world2 ''Partner'')) =
        Some (replicate 4 (Some (0, SCR_COPY_PARTNER)))"
      by code_simp
    then have pr2: "map ?h rs = replicate 4 (Some (0, SCR_COPY_PARTNER))" by (simp add: rs)
    note th = create_from_hash_partners_valid[OF rs]
    from th have "length rs = length (example_world2 ''Partner'')" by (rule conjunct1)
    then have len: "length rs = 4" by (simp add: example_world2_def)
    have v: "valid_partners (example_world2 ''Partner'' ! i) c \<or> enabled c = 0"
      if i: "i < 4" and c: "snd (rs ! i) = Some c" for i c
    proof -
      have "?h (rs ! i) = map ?h rs ! i" using i len by simp
      also have "\<dots> = Some (0, SCR_COPY_PARTNER)" unfolding pr2 using i by simp
      finally have e: "copy_type c = SCR_COPY_PARTNER" using c by simp
      have il: "i < length (example_world2 ''Partner'')" using i by (simp add: example_world2_def)
      from th have "\<forall>i<length (example_world2 ''Partner''). \<forall>c. snd (rs ! i) = Some c \<longrightarrow>
          copy_type c = SCR_COPY_PARTNER \<or> copy_type c = SCR_COPY_XOR \<longrightarrow>
          valid_partners (example_world2 ''Partner'' ! i) c \<or> enabled c = 0"
        by (rule conjunct2[THEN conjunct1])
      with il c e show ?thesis by blast
    qed
    from v have v': "\<forall>i<4. \<forall>c. snd (rs ! i) = Some c \<longrightarrow>
        (valid_partners (example_world2 ''Partner'' ! i) c \<or> enabled c = 0)"
      by blast
    show ?thesis by (intro exI[of _ rs] conjI) (fact rs len pr v')+
  qed
  from a b show ?thesis by blast
qed

end
